theory Spec2Isabelle
  imports Complex_Main "HOL-Library.Sublist"
begin

section \<open>The space colonisation engine of add\_mesh\_space\_tree/scanew.py\<close>

text \<open>
  The engine grows a skeleton of branch points towards a cloud of endpoints. Its state is
  the set of parallel arrays of class \<open>SCA\<close>; every method is a function from a state to
  an error or a new state, so that each exception the Python can raise is a branch here.
  A call that raises has no resulting state: what the Python object holds when an exception
  escapes half-way through a method is not modelled.

  Python's floats are read as real numbers: the arithmetic is exact and has neither
  overflow nor NaN. The exception is \<open>closestBranchPoint\<close>, where the rounding decides
  whether the call returns: it is modelled a second time, with the rounding explicit, and
  the claims about what it returns are stated of that model. The flat array \<open>bp\<close> of
  \<open>3n\<close> coordinates, which the code only extends by three values at a time and reads at
  \<open>3i\<close>, \<open>3i+1\<close>, \<open>3i+2\<close>, is a list of \<open>n\<close> triples. The parent index \<open>pi\<close> of the
  source is written \<open>pidx\<close>.
\<close>

subsection \<open>Values, errors and Python indexing\<close>

type_synonym vec = "real \<times> real \<times> real"

datatype error = ZeroDivisionError | IndexError | UnboundLocalError | StopIteration | NonTermination

text \<open>\<open>xs[i]\<close>: a negative index counts from the end, an index out of range raises.\<close>

definition py_index :: "nat \<Rightarrow> int \<Rightarrow> nat option" where
  "py_index n i =
     (if 0 \<le> i \<and> i < int n then Some (nat i)
      else if i < 0 \<and> - int n \<le> i then Some (nat (int n + i))
      else None)"

definition getitem :: "'a list \<Rightarrow> int \<Rightarrow> error + 'a" where
  "getitem xs i = (case py_index (length xs) i of None \<Rightarrow> Inl IndexError | Some k \<Rightarrow> Inr (xs ! k))"

definition setitem :: "'a list \<Rightarrow> int \<Rightarrow> 'a \<Rightarrow> error + 'a list" where
  "setitem xs i v = (case py_index (length xs) i of None \<Rightarrow> Inl IndexError | Some k \<Rightarrow> Inr (xs[k := v]))"

text \<open>A \<open>for\<close> loop over a sequence fixed before the loop; the first exception ends it.\<close>

primrec for_each :: "'i list \<Rightarrow> ('i \<Rightarrow> 's \<Rightarrow> error + 's) \<Rightarrow> 's \<Rightarrow> error + 's" where
  "for_each [] f s = Inr s"
| "for_each (i # is) f s = (case f i s of Inl e \<Rightarrow> Inl e | Inr s' \<Rightarrow> for_each is f s')"

subsection \<open>The two helpers: closest and direction\<close>

text \<open>
  The definitions of \<open>closest\<close> and \<open>direction\<close> in pure Python, which the file falls
  back to without its native module. In the loop of \<open>closest\<close> the accumulator is \<open>d2\<close>
  together with \<open>ci\<close> and \<open>v\<close>, which are unbound (\<open>None\<close>) until the first branch
  point with fewer than two children that is nearer than \<open>1e30\<close>. The arithmetic here is
  exact; \<open>closest_fl\<close> below is the same function with the rounding of the floats.
\<close>

fun closest_loop :: "vec list \<Rightarrow> int list \<Rightarrow> vec \<Rightarrow> nat list \<Rightarrow> real \<times> (nat \<times> vec) option
    \<Rightarrow> error + real \<times> (nat \<times> vec) option" where
  "closest_loop pos count q [] acc = Inr acc"
| "closest_loop pos count (x, y, z) (i # is) (d2, found) =
     (if length count \<le> i then Inl IndexError
      else if count ! i > 1 then closest_loop pos count (x, y, z) is (d2, found)
      else if length pos \<le> i then Inl IndexError
      else (case pos ! i of (px, py, pz) \<Rightarrow>
        let dx = x - px; dy = y - py; dz = z - pz;
            d = dx * dx + dy * dy + dz * dz
        in if d < d2 then closest_loop pos count (x, y, z) is (d, Some (i, (dx, dy, dz)))
           else closest_loop pos count (x, y, z) is (d2, found)))"

definition closest :: "vec list \<Rightarrow> int list \<Rightarrow> nat \<Rightarrow> real \<Rightarrow> real \<Rightarrow> real \<Rightarrow> error + real \<times> nat \<times> vec" where
  "closest pos count n x y z =
     (case closest_loop pos count (x, y, z) [0..<n] (10 ^ 30, None) of
        Inl e \<Rightarrow> Inl e
      | Inr (d2, None) \<Rightarrow> Inl UnboundLocalError
      | Inr (d2, Some (ci, v)) \<Rightarrow> Inr (d2, ci, v))"

definition direction :: "vec list \<Rightarrow> vec \<times> real" where
  "direction v =
     (case foldl (\<lambda>(x, y, z) (a, b, c). (x + a, y + b, z + c)) (0, 0, 0) v of
        (x, y, z) \<Rightarrow> ((x, y, z), x * x + y * y + z * z))"

subsection \<open>The engine's state and surroundings\<close>

text \<open>
  A \<open>Branchpoint\<close> object; its fields carry the prefix \<open>b_\<close>. The references \<open>apex\<close> and
  \<open>shoot\<close> to other objects of the list \<open>branchpoints\<close> are positions in that list.
\<close>

record Branchpoint =
  b_v :: vec
  b_parent :: "int option"
  b_connections :: int
  b_generation :: int
  b_apex :: "nat option"
  b_shoot :: "nat option"
  b_index :: int

text \<open>
  What the engine takes from outside the class: the values of \<open>random()\<close> after
  \<open>seed(SEED)\<close>, the generator \<open>volume()\<close> (called for the \<open>k\<close>-th point with the number
  of random values consumed so far, it gives the point and the new number, or nothing when
  it yields no point), the order in which a \<open>for\<close> loop enumerates \<open>set(epb)\<close> once \<open>-1\<close>
  and \<open>-2\<close> are discarded, and whether the time budget is found exceeded after a
  generation.
\<close>

record runtime =
  random_draw :: "int \<Rightarrow> nat \<Rightarrow> real"
  next_point :: "nat \<Rightarrow> nat \<Rightarrow> (vec \<times> nat) option"
  set_order :: "int list \<Rightarrow> int list"
  out_of_time :: "real \<Rightarrow> nat \<Rightarrow> bool"

record sca =
  killdistance :: real
  branchlength :: real
  maxiterations :: int
  tropism :: real
  influence :: real
  apicalcontrol :: real
  apicalcontrolfalloff :: real
  apicaltiming :: real
  apicalstep :: real
  bp :: "vec list"
  bpg :: "int list"
  bpp :: "int option list"
  bpc :: "int list"
  bpa :: "int list"
  ep :: "vec list"
  epb :: "int list"
  epv :: "vec list"
  epd :: "real list"
  exclude :: "vec \<Rightarrow> bool"
  volumepoint :: nat
  rseed :: int
  rcursor :: nat
  branchpoints :: "Branchpoint list"
  endpoints :: "vec list"

text \<open>The arguments of \<open>SCA.__init__\<close>; \<open>arg_startingpoints\<close> holds the \<open>.v\<close> of each preset.\<close>

record config =
  arg_NENDPOINTS :: int
  arg_d :: real
  arg_NBP :: int
  arg_KILLDIST :: real
  arg_INFLUENCE :: real
  arg_SEED :: int
  arg_TROPISM :: real
  arg_exclude :: "vec \<Rightarrow> bool"
  arg_startingpoints :: "vec list"
  arg_apicalcontrol :: real
  arg_apicalcontrolfalloff :: real
  arg_apicaltiming :: real

subsection \<open>closestBranchPoint and addEndPoint\<close>

definition closestBranchPoint :: "sca \<Rightarrow> vec \<Rightarrow> error + int \<times> vec \<times> real" where
  "closestBranchPoint s p =
     (case closest (bp s) (bpc s) (length (bp s)) (fst p) (fst (snd p)) (snd (snd p)) of
        Inl e \<Rightarrow> Inl e
      | Inr (d2, bbi, (bvx, bvy, bvz)) \<Rightarrow>
          (let d = sqrt d2
           in if d = 0 then Inl ZeroDivisionError
              else Inr (if d < influence s then int bbi else - 2, (bvx / d, bvy / d, bvz / d), d)))"

definition addEndPoint :: "vec \<Rightarrow> sca \<Rightarrow> error + sca" where
  "addEndPoint p s =
     (let s1 = s\<lparr>ep := ep s @ [p]\<rparr>
      in (case closestBranchPoint s1 p of
            Inl e \<Rightarrow> Inl e
          | Inr (bi, w, d) \<Rightarrow> Inr (s1\<lparr>epb := epb s1 @ [bi], epv := epv s1 @ [w], epd := epd s1 @ [d]\<rparr>)))"

subsection \<open>addBranchPoint\<close>

text \<open>
  The walk up the parent chain, \<open>while ppi is not None\<close>. The list \<open>bpp\<close> is not written
  during the walk, so a walk that has read \<open>bpp\<close> at more positions than \<open>bpp\<close> has is in a
  cycle and the source loop never ends: that outcome is the value \<open>NonTermination\<close>.
\<close>

fun walk :: "nat \<Rightarrow> int option list \<Rightarrow> int \<Rightarrow> int option \<Rightarrow> int list \<Rightarrow> error + int list" where
  "walk fuel par gen None g = Inr g"
| "walk 0 par gen (Some ppi) g = Inl NonTermination"
| "walk (Suc fuel) par gen (Some ppi) g =
     (case setitem g ppi gen of
        Inl e \<Rightarrow> Inl e
      | Inr g' \<Rightarrow> (case getitem par ppi of Inl e \<Rightarrow> Inl e | Inr nxt \<Rightarrow> walk fuel par gen nxt g'))"

text \<open>The body of the first loop over the endpoints (lines 129 to 143), at endpoint \<open>epi\<close>.\<close>

definition sweep_step :: "vec \<Rightarrow> int \<Rightarrow> nat \<Rightarrow> sca \<Rightarrow> error + sca" where
  "sweep_step p bi epi s =
     (if epb s ! epi \<noteq> - 1 then
        (let v0 = fst (ep s ! epi) - fst p;
             v1 = fst (snd (ep s ! epi)) - fst (snd p);
             v2 = snd (snd (ep s ! epi)) - snd (snd p);
             d2 = v0 * v0 + v1 * v1 + v2 * v2;
             d = sqrt d2
         in if d < epd s ! epi then
              (if d > killdistance s then
                 (if d = 0 then Inl ZeroDivisionError
                  else if length (epv s) \<le> epi then Inl IndexError
                  else Inr (s\<lparr>epv := (epv s)[epi := (v0 / d, v1 / d, v2 / d)],
                              epd := (epd s)[epi := d],
                              epb := (epb s)[epi := (if d < influence s then bi else - 2)]\<rparr>))
               else Inr (s\<lparr>epb := (epb s)[epi := - 1]\<rparr>))
            else Inr s)
      else Inr s)"

text \<open>The body of the second loop (lines 145 to 150), at endpoint \<open>epi\<close>.\<close>

definition reassign_step :: "int \<Rightarrow> nat \<Rightarrow> sca \<Rightarrow> error + sca" where
  "reassign_step pidx epi s =
     (if epb s ! epi = pidx then
        (if length (ep s) \<le> epi then Inl IndexError
         else (case closestBranchPoint s (ep s ! epi) of
                 Inl e \<Rightarrow> Inl e
               | Inr (bi, w, d) \<Rightarrow>
                   (if length (epv s) \<le> epi \<or> length (epd s) \<le> epi then Inl IndexError
                    else Inr (s\<lparr>epb := (epb s)[epi := bi], epv := (epv s)[epi := w],
                                epd := (epd s)[epi := d]\<rparr>))))
      else Inr s)"

text \<open>
  \<open>addBranchPoint\<close> in its four parts: lines 113 to 122 append the point and update the
  parent; lines 123 to 143 sweep the endpoints; lines 144 to 150 re-resolve the endpoints
  of a parent that is now full; line 152 counts the branch event at the parent.
\<close>

definition append_point :: "vec \<Rightarrow> int \<Rightarrow> int \<Rightarrow> sca \<Rightarrow> error + sca" where
  "append_point p pidx gen s =
     (let s1 = s\<lparr>bp := bp s @ [p], bpg := bpg s @ [gen]\<rparr>
      in (case walk (Suc (length (bpp s1))) (bpp s1) gen (Some pidx) (bpg s1) of
            Inl e \<Rightarrow> Inl e
          | Inr g \<Rightarrow>
              (let s2 = s1\<lparr>bpg := g, bpp := bpp s1 @ [Some pidx], bpc := bpc s1 @ [0],
                          bpa := bpa s1 @ [0]\<rparr>
               in (case getitem (bpc s2) pidx of
                     Inl e \<Rightarrow> Inl e
                   | Inr c \<Rightarrow>
                       (case setitem (bpc s2) pidx (c + 1) of
                          Inl e \<Rightarrow> Inl e
                        | Inr cs \<Rightarrow> Inr (s2\<lparr>bpc := cs\<rparr>))))))"

definition sweep_endpoints :: "vec \<Rightarrow> sca \<Rightarrow> error + sca" where
  "sweep_endpoints p s =
     for_each [0..<min (length (ep s)) (min (length (epd s)) (length (epb s)))]
       (sweep_step p (int (length (bp s)) - 1)) s"

definition reassign_endpoints :: "int \<Rightarrow> sca \<Rightarrow> error + sca" where
  "reassign_endpoints pidx s =
     (case getitem (bpc s) pidx of
        Inl e \<Rightarrow> Inl e
      | Inr c \<Rightarrow> (if c > 1 then for_each [0..<length (epb s)] (reassign_step pidx) s else Inr s))"

definition count_branch_event :: "int \<Rightarrow> sca \<Rightarrow> error + sca" where
  "count_branch_event pidx s =
     (case getitem (bpa s) pidx of
        Inl e \<Rightarrow> Inl e
      | Inr a \<Rightarrow> (case setitem (bpa s) pidx (a + 1) of
                    Inl e \<Rightarrow> Inl e
                  | Inr bs \<Rightarrow> Inr (s\<lparr>bpa := bs\<rparr>)))"

definition addBranchPoint :: "vec \<Rightarrow> int \<Rightarrow> int \<Rightarrow> sca \<Rightarrow> error + sca" where
  "addBranchPoint p pidx gen s =
     (case append_point p pidx gen s of
        Inl e \<Rightarrow> Inl e
      | Inr s3 \<Rightarrow>
          (case sweep_endpoints p s3 of
             Inl e \<Rightarrow> Inl e
           | Inr s4 \<Rightarrow>
               (case reassign_endpoints pidx s4 of
                  Inl e \<Rightarrow> Inl e
                | Inr s5 \<Rightarrow> count_branch_event pidx s5)))"

subsection \<open>shootSupressed and growBranches\<close>

text \<open>\<open>random()\<close>: the next value of the seeded generator.\<close>

definition random :: "runtime \<Rightarrow> sca \<Rightarrow> real \<times> sca" where
  "random env s = (random_draw env (rseed s) (rcursor s), s\<lparr>rcursor := Suc (rcursor s)\<rparr>)"

definition shootSupressed :: "runtime \<Rightarrow> real \<Rightarrow> sca \<Rightarrow> bool \<times> sca" where
  "shootSupressed env apicalcontrolfactor s =
     (if apicalcontrol s \<le> 0 then (False, s)
      else (let p = 1 - apicalcontrolfactor * apicalcontrol s
            in if p \<le> 0 then (True, s)
               else (let p' = p powr apicalcontrolfalloff s
                     in (case random env s of (u, s') \<Rightarrow> (u > p', s')))))"

text \<open>
  The body of the first loop of \<open>growBranches\<close>, at the branch point \<open>bpi\<close>; the loop
  carries the lists \<open>newbps\<close> and \<open>newbpps\<close>.
\<close>

definition grow_candidate :: "runtime \<Rightarrow> int \<Rightarrow> sca \<times> vec list \<times> int list
    \<Rightarrow> error + sca \<times> vec list \<times> int list" where
  "grow_candidate env bpi st =
     (case st of (s, newbps, newbpps) \<Rightarrow>
      (case getitem (bpa s) bpi of
         Inl e \<Rightarrow> Inl e
       | Inr a \<Rightarrow>
      (case shootSupressed env (of_int a) s of
         (True, s') \<Rightarrow> Inr (s', newbps, newbpps)
       | (False, s') \<Rightarrow>
      (if length (epb s') < length (epv s') then Inl IndexError
       else (case direction (map (\<lambda>epi. epv s' ! epi)
                     (filter (\<lambda>epi. epb s' ! epi = bpi) [0..<length (epv s')])) of
               ((x, y, z), d2) \<Rightarrow>
       (if branchlength s' = 0 then Inl ZeroDivisionError
        else (let d = sqrt d2 / branchlength s'
              in if d = 0 then Inl ZeroDivisionError
                 else (case getitem (bp s') bpi of
                         Inl e \<Rightarrow> Inl e
                       | Inr (px, py, pz) \<Rightarrow>
                           Inr (s', newbps @ [(px + x / d, py + y / d, pz + z / d + tropism s')],
                                newbpps @ [bpi])))))))))"

definition growBranches :: "runtime \<Rightarrow> int \<Rightarrow> sca \<Rightarrow> error + sca" where
  "growBranches env gen s =
     (case for_each (set_order env (epb s)) (grow_candidate env) (s, [], []) of
        Inl e \<Rightarrow> Inl e
      | Inr (s1, newbps, newbpps) \<Rightarrow>
          for_each (zip newbps newbpps)
            (\<lambda>(newbp, newbpp) t. if exclude t newbp then Inr t else addBranchPoint newbp newbpp gen t)
            s1)"

subsection \<open>Construction\<close>

text \<open>One pass of \<open>self.addEndPoint(next(self.volumepoint))\<close>.\<close>

definition add_sampled_endpoint :: "runtime \<Rightarrow> sca \<Rightarrow> error + sca" where
  "add_sampled_endpoint env s =
     (case next_point env (volumepoint s) (rcursor s) of
        None \<Rightarrow> Inl StopIteration
      | Some (p, r) \<Rightarrow> addEndPoint p (s\<lparr>volumepoint := Suc (volumepoint s), rcursor := r\<rparr>))"

definition initial_store :: "config \<Rightarrow> sca" where
  "initial_store c =
     \<lparr>killdistance = arg_KILLDIST c,
      branchlength = arg_d c,
      maxiterations = arg_NBP c,
      tropism = arg_TROPISM c,
      influence = (if arg_INFLUENCE c > 0 then arg_INFLUENCE c else 10 ^ 16),
      apicalcontrol = arg_apicalcontrol c,
      apicalcontrolfalloff = arg_apicalcontrolfalloff c,
      apicaltiming = arg_apicaltiming c,
      apicalstep = (if arg_apicaltiming c > 0 then arg_apicalcontrol c / arg_apicaltiming c else 0),
      bp = [(0, 0, 0)],
      bpg = [0],
      bpp = [None],
      bpc = [0],
      bpa = [0],
      ep = [],
      epb = [],
      epv = [],
      epd = [],
      exclude = arg_exclude c,
      volumepoint = 0,
      rseed = arg_SEED c,
      rcursor = 0,
      branchpoints = [],
      endpoints = []\<rparr>"

definition SCA_init :: "runtime \<Rightarrow> config \<Rightarrow> error + sca" where
  "SCA_init env c =
     (case for_each [0..<nat (arg_NENDPOINTS c)] (\<lambda>i. add_sampled_endpoint env) (initial_store c) of
        Inl e \<Rightarrow> Inl e
      | Inr s \<Rightarrow>
          (if length (arg_startingpoints c) > 0
           then for_each (arg_startingpoints c) (\<lambda>q. addBranchPoint q (- 1) 0)
                  (s\<lparr>bp := [], bpp := [], bpc := []\<rparr>)
           else Inr s))"

subsection \<open>iterate\<close>

definition expovariate :: "runtime \<Rightarrow> real \<Rightarrow> sca \<Rightarrow> real \<times> sca" where
  "expovariate env lambd s = (case random env s of (u, s') \<Rightarrow> (- ln (1 - u) / lambd, s'))"

text \<open>
  The loop \<open>while t < niterations\<close> that adds endpoints. Nothing bounds the number of its
  passes, so it is a partial function: \<open>None\<close> when the loop never ends.
\<close>

partial_function (option) add_arrivals :: "runtime \<Rightarrow> real \<Rightarrow> real \<Rightarrow> real \<times> sca
    \<Rightarrow> (error + real \<times> sca) option" where
  "add_arrivals env rate niterations ts =
     (if fst ts < niterations then
        (case add_sampled_endpoint env (snd ts) of
           Inl e \<Rightarrow> Some (Inl e)
         | Inr s' \<Rightarrow>
             (case expovariate env rate s' of
                (dt, s'') \<Rightarrow> add_arrivals env rate niterations (fst ts + dt, s'')))
      else Some (Inr ts))"

definition reduce_apical_control :: "sca \<Rightarrow> sca" where
  "reduce_apical_control s =
     (if apicaltiming s > 0 then
        (let a = apicalcontrol s - apicalstep s
         in s\<lparr>apicaltiming := apicaltiming s - 1, apicalcontrol := (if a < 0 then 0 else a)\<rparr>)
      else s)"

text \<open>
  The loop \<open>for i in range(self.maxiterations)\<close> with its \<open>break\<close>; it carries \<open>t\<close>,
  \<open>niterations\<close> and the store.
\<close>

fun generations :: "runtime \<Rightarrow> real \<Rightarrow> real \<Rightarrow> nat list \<Rightarrow> real \<times> real \<times> sca
    \<Rightarrow> (error + sca) option" where
  "generations env rate maxtime [] (t, niterations, s) = Some (Inr s)"
| "generations env rate maxtime (i # is) (t, niterations, s) =
     (case growBranches env (int i) s of
        Inl e \<Rightarrow> Some (Inl e)
      | Inr s1 \<Rightarrow>
          (if maxtime > 0 \<and> out_of_time env maxtime i then Some (Inr s1)
           else if rate > 0 then
             (case add_arrivals env rate (niterations + 1) (t, s1) of
                None \<Rightarrow> None
              | Some (Inl e) \<Rightarrow> Some (Inl e)
              | Some (Inr (t', s2)) \<Rightarrow>
                  generations env rate maxtime is (t', niterations + 1, reduce_apical_control s2))
           else generations env rate maxtime is (t, niterations, reduce_apical_control s1)))"

text \<open>
  The first loop after the generations: one \<open>Branchpoint\<close> per branch point, numbered by
  the class attribute \<open>Branchpoint.count\<close>, and registered as its parent's apex or shoot.
  The loop carries that counter and the list \<open>branchpoints\<close>.
\<close>

definition new_Branchpoint :: "vec \<Rightarrow> int option \<Rightarrow> int \<Rightarrow> int \<Rightarrow> Branchpoint" where
  "new_Branchpoint p par gen cnt =
     \<lparr>b_v = p, b_parent = par, b_connections = 1, b_generation = gen, b_apex = None,
      b_shoot = None, b_index = cnt + 1\<rparr>"

text \<open>
  The new object, last in the list, becomes the apex of its parent \<open>branchpoints[bpp]\<close> when
  the parent has none, and its shoot otherwise.
\<close>

definition register_child :: "int \<Rightarrow> Branchpoint list \<Rightarrow> error + Branchpoint list" where
  "register_child bpp_bi bs =
     (case py_index (length bs) bpp_bi of
        None \<Rightarrow> Inl IndexError
      | Some k \<Rightarrow>
          (if b_apex (bs ! k) = None
           then Inr (bs[k := (bs ! k)\<lparr>b_apex := Some (length bs - 1)\<rparr>])
           else Inr (bs[k := (bs ! k)\<lparr>b_shoot := Some (length bs - 1)\<rparr>])))"

definition materialize_step :: "sca \<Rightarrow> nat \<Rightarrow> int \<times> Branchpoint list \<Rightarrow> error + int \<times> Branchpoint list" where
  "materialize_step s bi st =
     (case getitem (bpp s) (int bi) of
        Inl e \<Rightarrow> Inl e
      | Inr par \<Rightarrow>
          (case getitem (bpg s) (int bi) of
             Inl e \<Rightarrow> Inl e
           | Inr gen \<Rightarrow>
               (case par of
                  None \<Rightarrow> Inr (fst st + 1, snd st @ [new_Branchpoint (bp s ! bi) par gen (fst st)])
                | Some q \<Rightarrow>
                    (case register_child q (snd st @ [new_Branchpoint (bp s ! bi) par gen (fst st)]) of
                       Inl e \<Rightarrow> Inl e
                     | Inr bs \<Rightarrow> Inr (fst st + 1, bs)))))"

text \<open>
  The second loop: from each node up its parent chain, adding one to \<open>connections\<close> of
  every ancestor. The parents are not written, so a chain longer than the list is a cycle.
\<close>

fun count_up :: "nat \<Rightarrow> int option \<Rightarrow> Branchpoint list \<Rightarrow> error + Branchpoint list" where
  "count_up fuel None bs = Inr bs"
| "count_up 0 (Some q) bs = Inl NonTermination"
| "count_up (Suc fuel) (Some q) bs =
     (case py_index (length bs) q of
        None \<Rightarrow> Inl IndexError
      | Some k \<Rightarrow>
          count_up fuel (b_parent (bs ! k)) (bs[k := (bs ! k)\<lparr>b_connections := b_connections (bs ! k) + 1\<rparr>]))"

definition materialize :: "int \<Rightarrow> sca \<Rightarrow> error + int \<times> sca" where
  "materialize cnt s =
     (case for_each [0..<length (bp s)] (materialize_step s) (cnt, []) of
        Inl e \<Rightarrow> Inl e
      | Inr (cnt', bs) \<Rightarrow>
          (case for_each [0..<length bs] (\<lambda>k bs'. count_up (Suc (length bs')) (b_parent (bs' ! k)) bs') bs of
             Inl e \<Rightarrow> Inl e
           | Inr bs' \<Rightarrow> Inr (cnt', s\<lparr>branchpoints := bs', endpoints := ep s\<rparr>)))"

text \<open>
  \<open>iterate\<close>, from the value of \<open>Branchpoint.count\<close> and the store to their new values.
\<close>

definition iterate :: "runtime \<Rightarrow> real \<Rightarrow> real \<Rightarrow> int \<times> sca \<Rightarrow> (error + int \<times> sca) option" where
  "iterate env newendpointsper1000 maxtime cs =
     (let rate = newendpointsper1000 / 1000;
          ts = (if rate > 0 then expovariate env rate (snd cs) else (1, snd cs))
      in (case generations env rate maxtime [0..<nat (maxiterations (snd ts))] (fst ts, 0, snd ts) of
            None \<Rightarrow> None
          | Some (Inl e) \<Rightarrow> Some (Inl e)
          | Some (Inr s) \<Rightarrow> Some (materialize (fst cs) s)))"

subsection \<open>A complete run\<close>

text \<open>
  Construction followed by \<open>iterate\<close>, from the value of \<open>Branchpoint.count\<close> at the
  start of the run.
\<close>

definition complete_run :: "runtime \<Rightarrow> config \<Rightarrow> real \<Rightarrow> real \<Rightarrow> int \<Rightarrow> (error + int \<times> sca) option" where
  "complete_run env c newendpointsper1000 maxtime cnt =
     (case SCA_init env c of
        Inl e \<Rightarrow> Some (Inl e)
      | Inr s \<Rightarrow> iterate env newendpointsper1000 maxtime (cnt, s))"

subsection \<open>closest and closestBranchPoint with the rounding of the floats\<close>

text \<open>
  Whether \<open>closestBranchPoint\<close> returns at all depends on how the floats round: a square
  can underflow to \<open>0.0\<close> and a sum can round up to \<open>1e30\<close>. For the claims about that,
  the two functions are modelled a second time with the rounding explicit. A float
  operation returns the float nearest to its exact result; \<open>rnd\<close> is that map from the
  exact result to the float, so that \<open>a - b\<close> is \<open>rnd (a - b)\<close>,
  \<open>dx*dx + dy*dy + dz*dz\<close> is rounded after each of its five operations, and the literal
  \<open>1e30\<close> is \<open>rnd (10 ^ 30)\<close>. Comparisons of floats are exact. The floats are finite: an
  operation that overflows to \<open>inf\<close> or gives \<open>nan\<close> is outside this model. \<open>sqrt\<close> is
  applied to a rounded sum of squares, which is never negative in float arithmetic, so
  that its \<open>ValueError\<close> is no branch. Nothing is assumed of \<open>rnd\<close> here; with \<open>exact\<close>,
  which rounds nothing, these are \<open>closest\<close> and \<open>closestBranchPoint\<close> above.
\<close>

fun closest_loop_fl :: "(real \<Rightarrow> real) \<Rightarrow> vec list \<Rightarrow> int list \<Rightarrow> vec \<Rightarrow> nat list
    \<Rightarrow> real \<times> (nat \<times> vec) option \<Rightarrow> error + real \<times> (nat \<times> vec) option" where
  "closest_loop_fl rnd pos count q [] acc = Inr acc"
| "closest_loop_fl rnd pos count (x, y, z) (i # is) (d2, found) =
     (if length count \<le> i then Inl IndexError
      else if count ! i > 1 then closest_loop_fl rnd pos count (x, y, z) is (d2, found)
      else if length pos \<le> i then Inl IndexError
      else (case pos ! i of (px, py, pz) \<Rightarrow>
        let dx = rnd (x - px); dy = rnd (y - py); dz = rnd (z - pz);
            d = rnd (rnd (rnd (dx * dx) + rnd (dy * dy)) + rnd (dz * dz))
        in if d < d2 then closest_loop_fl rnd pos count (x, y, z) is (d, Some (i, (dx, dy, dz)))
           else closest_loop_fl rnd pos count (x, y, z) is (d2, found)))"

definition closest_fl :: "(real \<Rightarrow> real) \<Rightarrow> vec list \<Rightarrow> int list \<Rightarrow> nat \<Rightarrow> real \<Rightarrow> real \<Rightarrow> real
    \<Rightarrow> error + real \<times> nat \<times> vec" where
  "closest_fl rnd pos count n x y z =
     (case closest_loop_fl rnd pos count (x, y, z) [0..<n] (rnd (10 ^ 30), None) of
        Inl e \<Rightarrow> Inl e
      | Inr (d2, None) \<Rightarrow> Inl UnboundLocalError
      | Inr (d2, Some (ci, v)) \<Rightarrow> Inr (d2, ci, v))"

definition closestBranchPoint_fl :: "(real \<Rightarrow> real) \<Rightarrow> sca \<Rightarrow> vec \<Rightarrow> error + int \<times> vec \<times> real" where
  "closestBranchPoint_fl rnd s p =
     (case closest_fl rnd (bp s) (bpc s) (length (bp s)) (fst p) (fst (snd p)) (snd (snd p)) of
        Inl e \<Rightarrow> Inl e
      | Inr (d2, bbi, (bvx, bvy, bvz)) \<Rightarrow>
          (let d = rnd (sqrt d2)
           in if d = 0 then Inl ZeroDivisionError
              else Inr (if d < influence s then int bbi else - 2,
                        (rnd (bvx / d), rnd (bvy / d), rnd (bvz / d)), d)))"

text \<open>
  Two roundings: \<open>exact\<close> rounds nothing; \<open>underflow\<close> is exact but for what is at most
  half the least positive double, \<open>2^-1074\<close>, which it rounds to \<open>0.0\<close> as the doubles of
  CPython do.
\<close>

definition exact :: "real \<Rightarrow> real" where
  "exact x = x"

definition underflow :: "real \<Rightarrow> real" where
  "underflow x = (if \<bar>x\<bar> \<le> 1 / 2 ^ 1075 then 0 else x)"

subsection \<open>Notions used in the statements\<close>

text \<open>The offset from \<open>p\<close> to \<open>q\<close> and the squared distance between them.\<close>

definition offset :: "vec \<Rightarrow> vec \<Rightarrow> vec" where
  "offset q p = (fst q - fst p, fst (snd q) - fst (snd p), snd (snd q) - snd (snd p))"

definition dist2 :: "vec \<Rightarrow> vec \<Rightarrow> real" where
  "dist2 q p =
     (fst q - fst p) * (fst q - fst p) + (fst (snd q) - fst (snd p)) * (fst (snd q) - fst (snd p))
       + (snd (snd q) - snd (snd p)) * (snd (snd q) - snd (snd p))"

text \<open>
  The record of endpoint \<open>i\<close>: association, direction, distance. A direction is an
  offset divided by its length.
\<close>

definition endpoint :: "sca \<Rightarrow> nat \<Rightarrow> int \<times> vec \<times> real" where
  "endpoint s i = (epb s ! i, epv s ! i, epd s ! i)"

definition scaled :: "vec \<Rightarrow> real \<Rightarrow> vec" where
  "scaled w d = (fst w / d, fst (snd w) / d, snd (snd w) / d)"

text \<open>
  What the first loop of \<open>addBranchPoint\<close> is to leave at endpoint \<open>i\<close> when the new
  branch point \<open>p\<close> has the index \<open>bi\<close>.
\<close>

definition retarget :: "vec \<Rightarrow> int \<Rightarrow> sca \<Rightarrow> nat \<Rightarrow> int \<times> vec \<times> real" where
  "retarget p bi s i =
     (let d = sqrt (dist2 (ep s ! i) p)
      in if epb s ! i \<noteq> - 1 \<and> d < epd s ! i then
           (if d > killdistance s
            then (if d < influence s then bi else - 2, scaled (offset (ep s ! i) p) d, d)
            else (- 1, epv s ! i, epd s ! i))
         else endpoint s i)"

text \<open>
  The four endpoint arrays have one entry per endpoint; two stores differ in the endpoint
  records only.
\<close>

definition aligned :: "sca \<Rightarrow> bool" where
  "aligned s \<longleftrightarrow>
     length (epb s) = length (ep s) \<and> length (epv s) = length (ep s) \<and> length (epd s) = length (ep s)"

definition same_but_endpoints :: "sca \<Rightarrow> sca \<Rightarrow> bool" where
  "same_but_endpoints s t \<longleftrightarrow>
     t = s\<lparr>epb := epb t, epv := epv t, epd := epd t\<rparr> \<and>
     length (epb t) = length (epb s) \<and> length (epv t) = length (epv s) \<and> length (epd t) = length (epd s)"

text \<open>Every endpoint that is dead in \<open>s\<close> is dead in \<open>s'\<close>.\<close>

definition dead_kept :: "sca \<Rightarrow> sca \<Rightarrow> bool" where
  "dead_kept s s' \<longleftrightarrow>
     length (epb s) \<le> length (epb s') \<and> (\<forall>i<length (epb s). epb s ! i = - 1 \<longrightarrow> epb s' ! i = - 1)"

text \<open>
  The surroundings enumerate \<open>set(epb)\<close> without \<open>-1\<close> and \<open>-2\<close>: every element once,
  in some order.
\<close>

definition enumerates_sets :: "runtime \<Rightarrow> bool" where
  "enumerates_sets env \<longleftrightarrow>
     (\<forall>xs. distinct (set_order env xs) \<and> set (set_order env xs) = set xs - {- 1, - 2})"

text \<open>
  An association is a sentinel or the index of a branch point with at most one child. The
  invariant of the stores: one entry per endpoint in each endpoint array, one child count per
  branch point, every association a sentinel or growable, every child count at most 2.
\<close>

definition growable_or_sentinel :: "sca \<Rightarrow> int \<Rightarrow> bool" where
  "growable_or_sentinel s b \<longleftrightarrow>
     b = - 1 \<or> b = - 2 \<or> (0 \<le> b \<and> nat b < length (bpc s) \<and> bpc s ! nat b \<le> 1)"

definition store_inv :: "sca \<Rightarrow> bool" where
  "store_inv s \<longleftrightarrow>
     aligned s \<and> length (bpc s) = length (bp s) \<and>
     (\<forall>i<length (epb s). growable_or_sentinel s (epb s ! i)) \<and>
     (\<forall>j<length (bpc s). bpc s ! j \<le> 2)"

text \<open>
  The stores an engine can be in after a construction without preset starting points,
  followed by any calls of \<open>growBranches\<close>, \<open>addEndPoint\<close> and \<open>iterate\<close> that complete.
\<close>

inductive reachable :: "runtime \<Rightarrow> sca \<Rightarrow> bool" for env :: runtime where
  construct: "SCA_init env c = Inr s \<Longrightarrow> arg_startingpoints c = [] \<Longrightarrow> reachable env s"
| grow: "reachable env s \<Longrightarrow> growBranches env gen s = Inr s' \<Longrightarrow> reachable env s'"
| add_endpoint: "reachable env s \<Longrightarrow> addEndPoint q s = Inr s' \<Longrightarrow> reachable env s'"
| run: "reachable env s \<Longrightarrow> iterate env r m (cnt, s) = Some (Inr (cnt', s')) \<Longrightarrow> reachable env s'"

text \<open>
  The generation in the spec's words: a candidate position is computed for a parent from a
  fixed snapshot of the store (the directions of the endpoints associated with the parent
  are summed, the sum is scaled to the step length and the tropism is added to the third
  coordinate); the candidates are staged for the parents in the given order, the snapshot
  never changing and only the position in the random sequence moving on.
\<close>

definition new_position :: "sca \<Rightarrow> int \<Rightarrow> error + vec" where
  "new_position s bpi =
     (if length (epb s) < length (epv s) then Inl IndexError
      else (case direction (map (\<lambda>epi. epv s ! epi)
                    (filter (\<lambda>epi. epb s ! epi = bpi) [0..<length (epv s)])) of
              ((x, y, z), d2) \<Rightarrow>
                (if branchlength s = 0 \<or> sqrt d2 / branchlength s = 0 then Inl ZeroDivisionError
                 else (case getitem (bp s) bpi of
                         Inl e \<Rightarrow> Inl e
                       | Inr (px, py, pz) \<Rightarrow>
                           Inr (px + x / (sqrt d2 / branchlength s),
                                py + y / (sqrt d2 / branchlength s),
                                pz + z / (sqrt d2 / branchlength s) + tropism s)))))"

fun staged_candidates :: "runtime \<Rightarrow> sca \<Rightarrow> int list \<Rightarrow> nat \<Rightarrow> error + (vec \<times> int) list \<times> nat" where
  "staged_candidates env s [] cur = Inr ([], cur)"
| "staged_candidates env s (bpi # rest) cur =
     (case getitem (bpa s) bpi of
        Inl e \<Rightarrow> Inl e
      | Inr a \<Rightarrow>
          (case shootSupressed env (of_int a) (s\<lparr>rcursor := cur\<rparr>) of
             (True, s') \<Rightarrow> staged_candidates env s rest (rcursor s')
           | (False, s') \<Rightarrow>
               (case new_position s bpi of
                  Inl e \<Rightarrow> Inl e
                | Inr q \<Rightarrow>
                    (case staged_candidates env s rest (rcursor s') of
                       Inl e \<Rightarrow> Inl e
                     | Inr (cands, cur') \<Rightarrow> Inr ((q, bpi) # cands, cur')))))"

text \<open>
  The outcome of a run with every \<open>index\<close>, and the counter, raised by \<open>k\<close>; a function
  applied to the result of a call that did not fail.
\<close>

definition renumbered :: "int \<Rightarrow> Branchpoint \<Rightarrow> Branchpoint" where
  "renumbered k b = b\<lparr>b_index := b_index b + k\<rparr>"

definition shifted :: "int \<Rightarrow> int \<times> sca \<Rightarrow> int \<times> sca" where
  "shifted k r = (fst r + k, (snd r)\<lparr>branchpoints := map (renumbered k) (branchpoints (snd r))\<rparr>)"

definition on_result :: "('a \<Rightarrow> 'b) \<Rightarrow> error + 'a \<Rightarrow> error + 'b" where
  "on_result h r = (case r of Inl e \<Rightarrow> Inl e | Inr x \<Rightarrow> Inr (h x))"

text \<open>
  The offset and the squared distance as the floats compute them, the growable branch
  points whose computed squared distance is below the sentinel of \<open>closest\<close>, and the
  least of these distances. A rounding keeps signs when it maps zero to zero and nothing
  non-negative below zero, and the sentinel is positive; the rounding of the doubles does.
\<close>

definition computed_offset :: "(real \<Rightarrow> real) \<Rightarrow> vec \<Rightarrow> vec \<Rightarrow> vec" where
  "computed_offset rnd q b =
     (rnd (fst q - fst b), rnd (fst (snd q) - fst (snd b)), rnd (snd (snd q) - snd (snd b)))"

definition computed_d2 :: "(real \<Rightarrow> real) \<Rightarrow> vec \<Rightarrow> vec \<Rightarrow> real" where
  "computed_d2 rnd q b =
     (case computed_offset rnd q b of
        (dx, dy, dz) \<Rightarrow> rnd (rnd (rnd (dx * dx) + rnd (dy * dy)) + rnd (dz * dz)))"

definition near :: "(real \<Rightarrow> real) \<Rightarrow> sca \<Rightarrow> vec \<Rightarrow> nat list" where
  "near rnd s p =
     filter (\<lambda>i. bpc s ! i \<le> 1 \<and> computed_d2 rnd p (bp s ! i) < rnd (10 ^ 30)) [0..<length (bp s)]"

definition least_d2 :: "(real \<Rightarrow> real) \<Rightarrow> sca \<Rightarrow> vec \<Rightarrow> real" where
  "least_d2 rnd s p = Min (set (map (\<lambda>i. computed_d2 rnd p (bp s ! i)) (near rnd s p)))"

definition keeps_sign :: "(real \<Rightarrow> real) \<Rightarrow> bool" where
  "keeps_sign rnd \<longleftrightarrow> rnd 0 = 0 \<and> (\<forall>x. 0 \<le> x \<longrightarrow> 0 \<le> rnd x) \<and> 0 < rnd (10 ^ 30)"

subsection \<open>Concrete configurations and stores\<close>

text \<open>The default arguments of \<open>SCA.__init__\<close>.\<close>

definition default_config :: config where
  "default_config =
     \<lparr>arg_NENDPOINTS = 100, arg_d = 3 / 10, arg_NBP = 2000, arg_KILLDIST = 5, arg_INFLUENCE = 15,
      arg_SEED = 42, arg_TROPISM = 0, arg_exclude = (\<lambda>p. False), arg_startingpoints = [],
      arg_apicalcontrol = 0, arg_apicalcontrolfalloff = 1, arg_apicaltiming = 0\<rparr>"

text \<open>
  Surroundings in which every random value is one half, the \<open>k\<close>-th sampled point is
  \<open>(4 + k, 0, 0)\<close>, a set is enumerated in ascending order and time never runs out.
\<close>

definition plain_runtime :: runtime where
  "plain_runtime =
     \<lparr>random_draw = (\<lambda>sd k. 1 / 2),
      next_point = (\<lambda>k r. Some ((4 + real k, 0, 0), r)),
      set_order = (\<lambda>xs. sort (remdups (filter (\<lambda>b. b \<noteq> - 1 \<and> b \<noteq> - 2) xs))),
      out_of_time = (\<lambda>maxtime i. False)\<rparr>"

text \<open>A store whose only branch point is full, and stores with a given apical control.\<close>

definition full_store :: sca where
  "full_store = (initial_store default_config)\<lparr>bpc := [2]\<rparr>"

definition apical_store :: "real \<Rightarrow> sca" where
  "apical_store c = (initial_store default_config)\<lparr>apicalcontrol := c\<rparr>"

text \<open>
  Configurations: one preset starting point and no endpoint to seed; no endpoint to seed
  and a negative influence radius; the latter with a zero step length and a negative kill
  distance as well.
\<close>

definition preset_config :: config where
  "preset_config = default_config\<lparr>arg_NENDPOINTS := 0, arg_startingpoints := [(1, 0, 0)]\<rparr>"

definition seedless_config :: config where
  "seedless_config = default_config\<lparr>arg_NENDPOINTS := - 3, arg_INFLUENCE := - 1\<rparr>"

definition invalid_config :: config where
  "invalid_config = seedless_config\<lparr>arg_d := 0, arg_KILLDIST := - 1\<rparr>"

text \<open>
  A store with a root that has one child already, a live endpoint nearest to the root and a
  dead endpoint; the step length is 1 and one generation is to be run.
\<close>

definition crowded_store :: sca where
  "crowded_store =
     (initial_store default_config)
       \<lparr>killdistance := 1, branchlength := 1, maxiterations := 1,
        bp := [(0, 0, 0), (0, 3, 0)], bpg := [0, 0], bpp := [None, Some 0],
        bpc := [1, 0], bpa := [1, 0], ep := [(4, 0, 0), (0, 0, - 1)], epb := [0, - 1],
        epv := [(1, 0, 0), (0, 0, - 1)], epd := [4, 1]\<rparr>"

text \<open>
  The store after one generation of growth from \<open>crowded_store\<close>, and the tree that
  \<open>iterate\<close> builds from it when \<open>Branchpoint.count\<close> starts at zero.
\<close>

definition grown_store :: sca where
  "grown_store =
     crowded_store\<lparr>bp := [(0, 0, 0), (0, 3, 0), (1, 0, 0)], bpg := [0, 0, 0],
       bpp := [None, Some 0, Some 0], bpc := [2, 0, 0], bpa := [2, 0, 0],
       epb := [2, - 1], epv := [(1, 0, 0), (0, 0, - 1)], epd := [3, 1]\<rparr>"

definition grown_tree :: "Branchpoint list" where
  "grown_tree =
     [\<lparr>b_v = (0, 0, 0), b_parent = None, b_connections = 3, b_generation = 0,
       b_apex = Some 1, b_shoot = Some 2, b_index = 1\<rparr>,
      \<lparr>b_v = (0, 3, 0), b_parent = Some 0, b_connections = 1, b_generation = 0,
       b_apex = None, b_shoot = None, b_index = 2\<rparr>,
      \<lparr>b_v = (1, 0, 0), b_parent = Some 0, b_connections = 1, b_generation = 0,
       b_apex = None, b_shoot = None, b_index = 3\<rparr>]"

text \<open>
  A run on the x axis, with step length 1, kill distance one half and one generation for
  \<open>iterate\<close>: the store after
  construction with one endpoint at 4, after a first generation, after a second endpoint
  is added at -4, after the first commit of the second generation and after that generation.
\<close>

definition line_config :: config where
  "line_config =
     default_config\<lparr>arg_NENDPOINTS := 1, arg_d := 1, arg_NBP := 1, arg_KILLDIST := 1 / 2\<rparr>"

definition line_a :: sca where
  "line_a = (initial_store line_config)
     \<lparr>ep := [(4, 0, 0)], epb := [0], epv := [(1, 0, 0)], epd := [4], volumepoint := 1\<rparr>"

definition line_b :: sca where
  "line_b = line_a
     \<lparr>bp := [(0, 0, 0), (1, 0, 0)], bpg := [0, 0], bpp := [None, Some 0], bpc := [1, 0],
      bpa := [1, 0], epb := [1], epd := [3]\<rparr>"

definition line_c :: sca where
  "line_c = line_b
     \<lparr>ep := [(4, 0, 0), (- 4, 0, 0)], epb := [1, 0], epv := [(1, 0, 0), (- 1, 0, 0)], epd := [3, 4]\<rparr>"

definition line_c1 :: sca where
  "line_c1 = line_c
     \<lparr>bp := [(0, 0, 0), (1, 0, 0), (- 1, 0, 0)], bpg := [1, 0, 1],
      bpp := [None, Some 0, Some 0], bpc := [2, 0, 0], bpa := [2, 0, 0],
      epb := [1, 2], epd := [3, 3]\<rparr>"

definition line_d :: sca where
  "line_d = line_c1
     \<lparr>bp := [(0, 0, 0), (1, 0, 0), (- 1, 0, 0), (2, 0, 0)], bpg := [1, 1, 1, 1],
      bpp := [None, Some 0, Some 0, Some 1], bpc := [2, 1, 0, 0], bpa := [2, 1, 0, 0],
      epb := [3, 2], epd := [2, 3]\<rparr>"

text \<open>
  Surroundings that enumerate a set by the residues modulo 8 of its elements, as CPython
  does for a set of at most four small non-negative ints with distinct residues (its hash
  table then has eight slots, an int sits in the slot of its residue and the slots are
  visited in order). Under them a run on a line: a construction without endpoints, an
  endpoint added at \<open>(12, 0, 0)\<close>, eight generations (\<open>chain_k\<close> is the store after
  \<open>k\<close> of them), a second endpoint added at \<open>(6, 4, 0)\<close>, which branch point 6 gets, and
  the ninth generation, in which the branch points 8 and 6 grow.
\<close>

definition hash_runtime :: runtime where
  "hash_runtime =
     plain_runtime\<lparr>set_order :=
       (\<lambda>xs. sort_key (\<lambda>b. b mod 8) (remdups (filter (\<lambda>b. b \<noteq> - 1 \<and> b \<noteq> - 2) xs)))\<rparr>"

definition chain_config :: config where
  "chain_config = line_config\<lparr>arg_NENDPOINTS := 0\<rparr>"

definition chain_0 :: sca where
  "chain_0 = (initial_store chain_config)
     \<lparr>ep := [(12, 0, 0)], epb := [0], epv := [(1, 0, 0)], epd := [12]\<rparr>"

definition chain_1 :: sca where
  "chain_1 = chain_0
     \<lparr>bp := [(0, 0, 0), (1, 0, 0)],
      bpg := [0, 0],
      bpp := [None, Some 0],
      bpc := [1, 0], bpa := [1, 0],
      epb := [1], epd := [11]\<rparr>"

definition chain_2 :: sca where
  "chain_2 = chain_0
     \<lparr>bp := [(0, 0, 0), (1, 0, 0), (2, 0, 0)],
      bpg := [1, 1, 1],
      bpp := [None, Some 0, Some 1],
      bpc := [1, 1, 0], bpa := [1, 1, 0],
      epb := [2], epd := [10]\<rparr>"

definition chain_3 :: sca where
  "chain_3 = chain_0
     \<lparr>bp := [(0, 0, 0), (1, 0, 0), (2, 0, 0), (3, 0, 0)],
      bpg := [2, 2, 2, 2],
      bpp := [None, Some 0, Some 1, Some 2],
      bpc := [1, 1, 1, 0], bpa := [1, 1, 1, 0],
      epb := [3], epd := [9]\<rparr>"

definition chain_4 :: sca where
  "chain_4 = chain_0
     \<lparr>bp := [(0, 0, 0), (1, 0, 0), (2, 0, 0), (3, 0, 0), (4, 0, 0)],
      bpg := [3, 3, 3, 3, 3],
      bpp := [None, Some 0, Some 1, Some 2, Some 3],
      bpc := [1, 1, 1, 1, 0], bpa := [1, 1, 1, 1, 0],
      epb := [4], epd := [8]\<rparr>"

definition chain_5 :: sca where
  "chain_5 = chain_0
     \<lparr>bp := [(0, 0, 0), (1, 0, 0), (2, 0, 0), (3, 0, 0), (4, 0, 0), (5, 0, 0)],
      bpg := [4, 4, 4, 4, 4, 4],
      bpp := [None, Some 0, Some 1, Some 2, Some 3, Some 4],
      bpc := [1, 1, 1, 1, 1, 0], bpa := [1, 1, 1, 1, 1, 0],
      epb := [5], epd := [7]\<rparr>"

definition chain_6 :: sca where
  "chain_6 = chain_0
     \<lparr>bp := [(0, 0, 0), (1, 0, 0), (2, 0, 0), (3, 0, 0), (4, 0, 0), (5, 0, 0), (6, 0, 0)],
      bpg := [5, 5, 5, 5, 5, 5, 5],
      bpp := [None, Some 0, Some 1, Some 2, Some 3, Some 4, Some 5],
      bpc := [1, 1, 1, 1, 1, 1, 0], bpa := [1, 1, 1, 1, 1, 1, 0],
      epb := [6], epd := [6]\<rparr>"

definition chain_7 :: sca where
  "chain_7 = chain_0
     \<lparr>bp := [(0, 0, 0), (1, 0, 0), (2, 0, 0), (3, 0, 0), (4, 0, 0), (5, 0, 0), (6, 0, 0),
             (7, 0, 0)],
      bpg := [6, 6, 6, 6, 6, 6, 6, 6],
      bpp := [None, Some 0, Some 1, Some 2, Some 3, Some 4, Some 5, Some 6],
      bpc := [1, 1, 1, 1, 1, 1, 1, 0], bpa := [1, 1, 1, 1, 1, 1, 1, 0],
      epb := [7], epd := [5]\<rparr>"

definition chain_8 :: sca where
  "chain_8 = chain_0
     \<lparr>bp := [(0, 0, 0), (1, 0, 0), (2, 0, 0), (3, 0, 0), (4, 0, 0), (5, 0, 0), (6, 0, 0),
             (7, 0, 0), (8, 0, 0)],
      bpg := [7, 7, 7, 7, 7, 7, 7, 7, 7],
      bpp := [None, Some 0, Some 1, Some 2, Some 3, Some 4, Some 5, Some 6, Some 7],
      bpc := [1, 1, 1, 1, 1, 1, 1, 1, 0], bpa := [1, 1, 1, 1, 1, 1, 1, 1, 0],
      epb := [8], epd := [4]\<rparr>"

definition chain_store :: sca where
  "chain_store = chain_8
     \<lparr>ep := [(12, 0, 0), (6, 4, 0)], epb := [8, 6], epv := [(1, 0, 0), (0, 1, 0)],
      epd := [4, 4]\<rparr>"

definition chain_mid :: sca where
  "chain_mid = chain_store
     \<lparr>bp := [(0, 0, 0), (1, 0, 0), (2, 0, 0), (3, 0, 0), (4, 0, 0), (5, 0, 0), (6, 0, 0),
             (7, 0, 0), (8, 0, 0), (9, 0, 0)],
      bpg := [8, 8, 8, 8, 8, 8, 8, 8, 8, 8],
      bpp := [None, Some 0, Some 1, Some 2, Some 3, Some 4, Some 5, Some 6, Some 7, Some 8],
      bpc := [1, 1, 1, 1, 1, 1, 1, 1, 1, 0], bpa := [1, 1, 1, 1, 1, 1, 1, 1, 1, 0],
      epb := [9, 6], epd := [3, 4]\<rparr>"

definition chain_grown :: sca where
  "chain_grown = chain_mid
     \<lparr>bp := [(0, 0, 0), (1, 0, 0), (2, 0, 0), (3, 0, 0), (4, 0, 0), (5, 0, 0), (6, 0, 0),
             (7, 0, 0), (8, 0, 0), (9, 0, 0), (6, 1, 0)],
      bpg := [8, 8, 8, 8, 8, 8, 8, 8, 8, 8, 8],
      bpp := [None, Some 0, Some 1, Some 2, Some 3, Some 4, Some 5, Some 6, Some 7, Some 8, Some 6],
      bpc := [1, 1, 1, 1, 1, 1, 2, 1, 1, 0, 0], bpa := [1, 1, 1, 1, 1, 1, 2, 1, 1, 0, 0],
      epb := [9, 10], epd := [3, 3]\<rparr>"

text \<open>
  The tree and the store that a complete run with \<open>line_config\<close> gives when the counter
  starts at zero.
\<close>

definition line_tree :: "Branchpoint list" where
  "line_tree =
     [\<lparr>b_v = (0, 0, 0), b_parent = None, b_connections = 2, b_generation = 0,
       b_apex = Some 1, b_shoot = None, b_index = 1\<rparr>,
      \<lparr>b_v = (1, 0, 0), b_parent = Some 0, b_connections = 1, b_generation = 0,
       b_apex = None, b_shoot = None, b_index = 2\<rparr>]"

definition line_out :: sca where
  "line_out = line_b\<lparr>branchpoints := line_tree, endpoints := [(4, 0, 0)]\<rparr>"

text \<open>
  A third endpoint for the run on the line, a quarter of a unit left of the root, and the
  store after the next branch point at \<open>(-1, 0, 0)\<close> is committed.
\<close>

definition line_e :: sca where
  "line_e = line_c
     \<lparr>ep := [(4, 0, 0), (- 4, 0, 0), (- 1 / 4, 0, 0)], epb := [1, 0, 0],
      epv := [(1, 0, 0), (- 1, 0, 0), (- 1, 0, 0)], epd := [3, 4, 1 / 4]\<rparr>"

definition line_f :: sca where
  "line_f = line_e
     \<lparr>bp := [(0, 0, 0), (1, 0, 0), (- 1, 0, 0)], bpg := [1, 0, 1],
      bpp := [None, Some 0, Some 0], bpc := [2, 0, 0], bpa := [2, 0, 0],
      epb := [1, 2, 2], epv := [(1, 0, 0), (- 1, 0, 0), (1, 0, 0)], epd := [3, 3, 3 / 4]\<rparr>"

section \<open>Properties\<close>

subsection \<open>The nearest growable branch point\<close>

lemma closest_loop_sound:
  "closest_loop pos count q is (d0, f0) = Inr (d2, f) \<Longrightarrow>
     f = f0 \<or> (\<exists>i\<in>set is. i < length count \<and> i < length pos \<and> count ! i \<le> 1 \<and> (\<exists>u. f = Some (i, u)))"
proof (induction "is" arbitrary: d0 f0)
  case Nil
  then show ?case by simp
next
  case (Cons i "is")
  obtain x y z where q: "q = (x, y, z)" by (cases q) auto
  obtain px py pz where p: "pos ! i = (px, py, pz)" by (cases "pos ! i") auto
  show ?case
    using Cons.prems Cons.IH unfolding q
    by (fastforce simp: Let_def p split: if_splits)
qed

lemma sqrt25: "sqrt 25 = 5"
  using real_sqrt_abs [of 5] by simp

text \<open>Without rounding the second model is the first.\<close>

lemma closest_loop_fl_exact:
  "closest_loop_fl (\<lambda>x. x) pos count q is acc = closest_loop pos count q is acc"
proof (induction "is" arbitrary: acc)
  case Nil
  then show ?case by simp
next
  case (Cons i "is")
  obtain x y z where q: "q = (x, y, z)" by (cases q) auto
  obtain d2 found where a: "acc = (d2, found)" by (cases acc) auto
  obtain px py pz where p: "pos ! i = (px, py, pz)" by (cases "pos ! i") auto
  show ?case using Cons.IH by (simp add: q a p Let_def)
qed

lemma closestBranchPoint_fl_exact: "closestBranchPoint_fl exact s p = closestBranchPoint s p"
proof -
  have e: "exact = (\<lambda>x. x)" by (rule ext) (simp add: exact_def)
  show ?thesis
    unfolding closestBranchPoint_fl_def closestBranchPoint_def closest_fl_def closest_def e
    by (simp add: closest_loop_fl_exact)
qed

lemma closest_loop_fl_sound:
  "closest_loop_fl rnd pos count q is (d0, f0) = Inr (d2, f) \<Longrightarrow>
     f = f0 \<or> (\<exists>i\<in>set is. i < length count \<and> i < length pos \<and> count ! i \<le> 1 \<and> (\<exists>u. f = Some (i, u)))"
proof (induction "is" arbitrary: d0 f0)
  case Nil
  then show ?case by simp
next
  case (Cons i "is")
  obtain x y z where q: "q = (x, y, z)" by (cases q) auto
  obtain px py pz where p: "pos ! i = (px, py, pz)" by (cases "pos ! i") auto
  show ?case
    using Cons.prems Cons.IH unfolding q
    by (fastforce simp: Let_def p split: if_splits)
qed

text \<open>
  The scan never fails on arrays of one length, its distance is the least computed one
  among the growable branch points, and what it binds is the first branch point at that
  distance, if that is below the start value.
\<close>

lemma closest_loop_fl_char:
  assumes "\<forall>i\<in>set is. i < length count \<and> i < length pos"
  shows "\<exists>d2 f. closest_loop_fl rnd pos count q is (d0, f0) = Inr (d2, f) \<and> d2 \<le> d0 \<and>
           (\<forall>i\<in>set is. count ! i \<le> 1 \<longrightarrow> d2 \<le> computed_d2 rnd q (pos ! i)) \<and>
           ((f = f0 \<and> d2 = d0) \<or>
            (\<exists>i\<in>set is. count ! i \<le> 1 \<and> f = Some (i, computed_offset rnd q (pos ! i)) \<and>
               d2 = computed_d2 rnd q (pos ! i) \<and> d2 < d0))"
  using assms
proof (induction "is" arbitrary: d0 f0)
  case Nil
  then show ?case by simp
next
  case (Cons i "is")
  obtain x y z where q: "q = (x, y, z)" by (cases q) auto
  obtain px py pz where p: "pos ! i = (px, py, pz)" by (cases "pos ! i") auto
  have wf: "\<forall>i\<in>set is. i < length count \<and> i < length pos" and i: "i < length count" "i < length pos"
    using Cons.prems by auto
  let ?d = "computed_d2 rnd q (pos ! i)"
  let ?o = "computed_offset rnd q (pos ! i)"
  have oo: "?o = (rnd (x - px), rnd (y - py), rnd (z - pz))"
    by (simp add: computed_offset_def q p)
  have dd: "?d = rnd (rnd (rnd (rnd (x - px) * rnd (x - px)) + rnd (rnd (y - py) * rnd (y - py)))
                   + rnd (rnd (z - pz) * rnd (z - pz)))"
    by (simp add: computed_d2_def oo)
  consider (full) "count ! i > 1" | (near) "count ! i \<le> 1" "?d < d0" | (far) "count ! i \<le> 1" "\<not> ?d < d0"
    by linarith
  then show ?case
  proof cases
    case full
    from Cons.IH [OF wf, of d0 f0] obtain d2 f where
      r: "closest_loop_fl rnd pos count q is (d0, f0) = Inr (d2, f)" "d2 \<le> d0"
         "\<forall>i\<in>set is. count ! i \<le> 1 \<longrightarrow> d2 \<le> computed_d2 rnd q (pos ! i)"
         "(f = f0 \<and> d2 = d0) \<or>
          (\<exists>i\<in>set is. count ! i \<le> 1 \<and> f = Some (i, computed_offset rnd q (pos ! i)) \<and>
             d2 = computed_d2 rnd q (pos ! i) \<and> d2 < d0)"
      by blast
    have "closest_loop_fl rnd pos count q (i # is) (d0, f0) = Inr (d2, f)"
      using r(1) full i by (simp add: q)
    with r full show ?thesis by auto
  next
    case near
    from Cons.IH [OF wf, of ?d "Some (i, ?o)"] obtain d2 f where
      r: "closest_loop_fl rnd pos count q is (?d, Some (i, ?o)) = Inr (d2, f)" "d2 \<le> ?d"
         "\<forall>i\<in>set is. count ! i \<le> 1 \<longrightarrow> d2 \<le> computed_d2 rnd q (pos ! i)"
         "(f = Some (i, ?o) \<and> d2 = ?d) \<or>
          (\<exists>j\<in>set is. count ! j \<le> 1 \<and> f = Some (j, computed_offset rnd q (pos ! j)) \<and>
             d2 = computed_d2 rnd q (pos ! j) \<and> d2 < ?d)"
      by blast
    have "closest_loop_fl rnd pos count q (i # is) (d0, f0) = Inr (d2, f)"
      using r(1) near i by (simp add: q p Let_def dd [symmetric] oo [symmetric])
    moreover have "d2 \<le> d0" "d2 < d0" using r(2) near by auto
    ultimately show ?thesis using r near by auto
  next
    case far
    from Cons.IH [OF wf, of d0 f0] obtain d2 f where
      r: "closest_loop_fl rnd pos count q is (d0, f0) = Inr (d2, f)" "d2 \<le> d0"
         "\<forall>i\<in>set is. count ! i \<le> 1 \<longrightarrow> d2 \<le> computed_d2 rnd q (pos ! i)"
         "(f = f0 \<and> d2 = d0) \<or>
          (\<exists>i\<in>set is. count ! i \<le> 1 \<and> f = Some (i, computed_offset rnd q (pos ! i)) \<and>
             d2 = computed_d2 rnd q (pos ! i) \<and> d2 < d0)"
      by blast
    have "closest_loop_fl rnd pos count q (i # is) (d0, f0) = Inr (d2, f)"
      using r(1) far i by (simp add: q p Let_def dd [symmetric])
    moreover have "d2 \<le> ?d" using r(2) far by auto
    ultimately show ?thesis using r far by auto
  qed
qed

lemma near_iff:
  "i \<in> set (near rnd s p) \<longleftrightarrow>
     i < length (bp s) \<and> bpc s ! i \<le> 1 \<and> computed_d2 rnd p (bp s ! i) < rnd (10 ^ 30)"
  by (auto simp: near_def)

text \<open>The three outcomes of \<open>closestBranchPoint\<close>, whatever the rounding.\<close>

lemma closestBranchPoint_fl_cases:
  assumes len: "length (bpc s) = length (bp s)"
  shows "near rnd s p = [] \<and> closestBranchPoint_fl rnd s p = Inl UnboundLocalError
       \<or> near rnd s p \<noteq> [] \<and> (\<exists>i\<in>set (near rnd s p). \<exists>w.
            closestBranchPoint_fl rnd s p =
              (if rnd (sqrt (least_d2 rnd s p)) = 0 then Inl ZeroDivisionError
               else Inr (if rnd (sqrt (least_d2 rnd s p)) < influence s then int i else - 2, w,
                         rnd (sqrt (least_d2 rnd s p)))))"
proof -
  have "\<forall>i\<in>set [0..<length (bp s)]. i < length (bpc s) \<and> i < length (bp s)" using len by simp
  from closest_loop_fl_char [OF this, of rnd p "rnd (10 ^ 30)" None] obtain d2 f where
    r: "closest_loop_fl rnd (bp s) (bpc s) p [0..<length (bp s)] (rnd (10 ^ 30), None) = Inr (d2, f)"
       "\<forall>i<length (bp s). bpc s ! i \<le> 1 \<longrightarrow> d2 \<le> computed_d2 rnd p (bp s ! i)"
       "(f = None \<and> d2 = rnd (10 ^ 30)) \<or>
        (\<exists>i<length (bp s). bpc s ! i \<le> 1 \<and> f = Some (i, computed_offset rnd p (bp s ! i)) \<and>
           d2 = computed_d2 rnd p (bp s ! i) \<and> d2 < rnd (10 ^ 30))"
    by (auto simp: Bex_def Ball_def)
  from r(3) show ?thesis
  proof
    assume n: "f = None \<and> d2 = rnd (10 ^ 30)"
    then have "closestBranchPoint_fl rnd s p = Inl UnboundLocalError"
      using r(1) by (simp add: closestBranchPoint_fl_def closest_fl_def)
    moreover have "near rnd s p = []"
      using n r(2) by (auto simp: near_def filter_empty_conv not_less)
    ultimately show ?thesis by simp
  next
    assume "\<exists>i<length (bp s). bpc s ! i \<le> 1 \<and> f = Some (i, computed_offset rnd p (bp s ! i)) \<and>
              d2 = computed_d2 rnd p (bp s ! i) \<and> d2 < rnd (10 ^ 30)"
    then obtain i where i: "i < length (bp s)" "bpc s ! i \<le> 1"
        "f = Some (i, computed_offset rnd p (bp s ! i))"
        "d2 = computed_d2 rnd p (bp s ! i)" "d2 < rnd (10 ^ 30)" by blast
    have mem: "i \<in> set (near rnd s p)" using i by (simp add: near_iff)
    have "Min ((\<lambda>i. computed_d2 rnd p (bp s ! i)) ` set (near rnd s p)) = d2"
    proof (rule Min_eqI)
      show "finite ((\<lambda>i. computed_d2 rnd p (bp s ! i)) ` set (near rnd s p))" by simp
      show "d2 \<in> (\<lambda>i. computed_d2 rnd p (bp s ! i)) ` set (near rnd s p)" using mem i(4) by blast
      fix y
      assume "y \<in> (\<lambda>i. computed_d2 rnd p (bp s ! i)) ` set (near rnd s p)"
      then show "d2 \<le> y" using r(2) by (auto simp: near_iff)
    qed
    then have l: "least_d2 rnd s p = d2" by (simp add: least_d2_def)
    obtain ox oy oz where o: "computed_offset rnd p (bp s ! i) = (ox, oy, oz)"
      by (cases "computed_offset rnd p (bp s ! i)") auto
    have "closestBranchPoint_fl rnd s p =
            (if rnd (sqrt d2) = 0 then Inl ZeroDivisionError
             else Inr (if rnd (sqrt d2) < influence s then int i else - 2,
                       (rnd (ox / rnd (sqrt d2)), rnd (oy / rnd (sqrt d2)), rnd (oz / rnd (sqrt d2))),
                       rnd (sqrt d2)))"
      using r(1) i(3) o by (simp add: closestBranchPoint_fl_def closest_fl_def Let_def)
    with mem l show ?thesis by auto
  qed
qed

lemma closestBranchPoint_fl_returns:
  assumes "length (bpc s) = length (bp s)" and "near rnd s p \<noteq> []"
    and "rnd (sqrt (least_d2 rnd s p)) \<noteq> 0"
  shows "\<exists>bi w. closestBranchPoint_fl rnd s p = Inr (bi, w, rnd (sqrt (least_d2 rnd s p))) \<and>
           (bi = - 2 \<or> bi \<in> int ` set (near rnd s p))"
  using closestBranchPoint_fl_cases [OF assms(1), of rnd p] assms(2,3) by auto

lemma computed_d2_nonneg: "keeps_sign rnd \<Longrightarrow> 0 \<le> computed_d2 rnd q b"
  by (simp add: keeps_sign_def computed_d2_def computed_offset_def)

lemma computed_d2_same: "keeps_sign rnd \<Longrightarrow> computed_d2 rnd q q = 0"
  by (simp add: keeps_sign_def computed_d2_def computed_offset_def)

lemma least_d2_coincide:
  assumes k: "keeps_sign rnd" and i: "i < length (bp s)" "bpc s ! i \<le> 1" "bp s ! i = p"
  shows "near rnd s p \<noteq> [] \<and> least_d2 rnd s p = 0"
proof -
  have mem: "i \<in> set (near rnd s p)"
    using i k computed_d2_same [OF k, of p] by (simp add: near_iff keeps_sign_def)
  have "Min ((\<lambda>i. computed_d2 rnd p (bp s ! i)) ` set (near rnd s p)) = 0"
  proof (rule Min_eqI)
    show "finite ((\<lambda>i. computed_d2 rnd p (bp s ! i)) ` set (near rnd s p))" by simp
    show "0 \<in> (\<lambda>i. computed_d2 rnd p (bp s ! i)) ` set (near rnd s p)"
      using mem i(3) computed_d2_same [OF k, of p] by force
    fix y
    assume "y \<in> (\<lambda>i. computed_d2 rnd p (bp s ! i)) ` set (near rnd s p)"
    then obtain j where "y = computed_d2 rnd p (bp s ! j)" by blast
    then show "0 \<le> y" by (simp add: computed_d2_nonneg [OF k])
  qed
  with mem show ?thesis by (auto simp: least_d2_def)
qed

lemma near_example: "near exact (initial_store default_config) (3, 0, 4) = [0]"
  by (simp add: near_def computed_d2_def computed_offset_def exact_def initial_store_def)

lemma least_example: "least_d2 exact (initial_store default_config) (3, 0, 4) = 25"
  by (simp add: least_d2_def near_example)
     (simp add: computed_d2_def computed_offset_def exact_def initial_store_def)

lemma closestBranchPoint_example:
  "closestBranchPoint_fl exact (initial_store default_config) (3, 0, 4) = Inr (0, (3 / 5, 0, 4 / 5), 5)"
  by (simp add: closestBranchPoint_fl_def closest_fl_def exact_def initial_store_def
        default_config_def sqrt25)

text \<open>
  Claim C7, amended. Whatever the store, the query point and the rounding, a value that
  \<open>closestBranchPoint\<close> returns is the sentinel \<open>-2\<close> (out of range) or the index of a
  branch point with at most one child, never the index of a branch point with two children
  or more. A growable branch point in the store does not make the call return: on a store
  with one child count per branch point it returns, and then the sentinel or one of these
  branch points, when some growable branch point is at a computed squared distance below
  \<open>1e30\<close> and the root of the least such distance is not \<open>0.0\<close>.
\<close>

theorem closestBranchPoint_growable:
  "(closestBranchPoint_fl rnd s p = Inr (bi, w, d) \<longrightarrow>
      (bi = - 2 \<or> (0 \<le> bi \<and> nat bi < length (bp s) \<and> nat bi < length (bpc s) \<and> bpc s ! nat bi \<le> 1)) \<and>
      \<not> (0 \<le> bi \<and> nat bi < length (bpc s) \<and> 2 \<le> bpc s ! nat bi)) \<and>
   (length (bpc s) = length (bp s) \<and> near rnd s p \<noteq> [] \<and> rnd (sqrt (least_d2 rnd s p)) \<noteq> 0 \<longrightarrow>
      (\<exists>bi w d. closestBranchPoint_fl rnd s p = Inr (bi, w, d) \<and>
         (bi = - 2 \<or> bi \<in> int ` set (near rnd s p))))"
proof -
  have "(bi = - 2 \<or> (0 \<le> bi \<and> nat bi < length (bp s) \<and> nat bi < length (bpc s) \<and> bpc s ! nat bi \<le> 1)) \<and>
      \<not> (0 \<le> bi \<and> nat bi < length (bpc s) \<and> 2 \<le> bpc s ! nat bi)"
    if a: "closestBranchPoint_fl rnd s p = Inr (bi, w, d)"
  proof -
    from a obtain d2 bbi bv where
      c: "closest_fl rnd (bp s) (bpc s) (length (bp s)) (fst p) (fst (snd p)) (snd (snd p)) = Inr (d2, bbi, bv)"
      and bi: "bi = (if rnd (sqrt d2) < influence s then int bbi else - 2)"
      by (auto simp: closestBranchPoint_fl_def Let_def split: sum.splits prod.splits if_splits)
    from c have l: "closest_loop_fl rnd (bp s) (bpc s) (fst p, fst (snd p), snd (snd p))
        [0..<length (bp s)] (rnd (10 ^ 30), None) = Inr (d2, Some (bbi, bv))"
      by (auto simp: closest_fl_def split: sum.splits prod.splits option.splits)
    have "bbi < length (bp s) \<and> bbi < length (bpc s) \<and> bpc s ! bbi \<le> 1"
      using closest_loop_fl_sound [OF l] by auto
    with bi show ?thesis by auto
  qed
  moreover have "\<exists>bi w d. closestBranchPoint_fl rnd s p = Inr (bi, w, d) \<and>
         (bi = - 2 \<or> bi \<in> int ` set (near rnd s p))"
    if "length (bpc s) = length (bp s) \<and> near rnd s p \<noteq> [] \<and> rnd (sqrt (least_d2 rnd s p)) \<noteq> 0"
    using closestBranchPoint_fl_returns [of s rnd p] that by blast
  ultimately show ?thesis by blast
qed

theorem closestBranchPoint_growable_witness:
  "closestBranchPoint_fl exact (initial_store default_config) (3, 0, 4) = Inr (0, (3 / 5, 0, 4 / 5), 5) \<and>
   bpc (initial_store default_config) ! nat 0 \<le> 1 \<and>
   near exact (initial_store default_config) (3, 0, 4) = [0] \<and>
   exact (sqrt (least_d2 exact (initial_store default_config) (3, 0, 4))) = 5"
  using closestBranchPoint_growable [of exact "initial_store default_config" "(3, 0, 4)" 0 "(3 / 5, 0, 4 / 5)" 5]
    closestBranchPoint_example near_example least_example
  by (simp add: initial_store_def exact_def sqrt25)

text \<open>
  Claim C7 as stated (with a growable branch point in the store the call returns the
  sentinel or an index) fails for the query point \<open>(0, 0, 0)\<close> on a freshly constructed
  store: the root is growable, the computed distance is \<open>0.0\<close> and the call raises.
\<close>

theorem closestBranchPoint_root_counterexample:
  "bpc (initial_store default_config) ! 0 \<le> 1 \<and>
   closestBranchPoint_fl exact (initial_store default_config) (0, 0, 0) = Inl ZeroDivisionError \<and>
   closestBranchPoint_fl underflow (initial_store default_config) (0, 0, 0) = Inl ZeroDivisionError"
  by (simp add: closestBranchPoint_fl_def closest_fl_def exact_def underflow_def initial_store_def
        default_config_def)

text \<open>
  Claim C10, amended. On a store with one child count per branch point and whatever the
  rounding, \<open>closestBranchPoint\<close> fails with \<open>UnboundLocalError\<close> when no growable branch
  point is at a computed squared distance below \<open>1e30\<close>, so when every branch point is
  full or there is none; otherwise it fails with \<open>ZeroDivisionError\<close> when the root of the
  least such distance is \<open>0.0\<close>, so when a growable branch point coincides with the query
  point (for a rounding that keeps signs); and otherwise it returns a result, with the
  root of that least distance as the distance.
\<close>

theorem closestBranchPoint_defined:
  assumes "length (bpc s) = length (bp s)"
  shows "(near rnd s p = [] \<longrightarrow> closestBranchPoint_fl rnd s p = Inl UnboundLocalError) \<and>
         ((\<forall>i<length (bp s). bpc s ! i > 1) \<longrightarrow> closestBranchPoint_fl rnd s p = Inl UnboundLocalError) \<and>
         (near rnd s p \<noteq> [] \<and> rnd (sqrt (least_d2 rnd s p)) = 0 \<longrightarrow>
            closestBranchPoint_fl rnd s p = Inl ZeroDivisionError) \<and>
         (keeps_sign rnd \<and> (\<exists>i<length (bp s). bpc s ! i \<le> 1 \<and> bp s ! i = p) \<longrightarrow>
            closestBranchPoint_fl rnd s p = Inl ZeroDivisionError) \<and>
         (near rnd s p \<noteq> [] \<and> rnd (sqrt (least_d2 rnd s p)) \<noteq> 0 \<longrightarrow>
            (\<exists>bi w. closestBranchPoint_fl rnd s p = Inr (bi, w, rnd (sqrt (least_d2 rnd s p)))))"
proof (intro conjI impI)
  assume "near rnd s p = []"
  then show "closestBranchPoint_fl rnd s p = Inl UnboundLocalError"
    using closestBranchPoint_fl_cases [OF assms, of rnd p] by auto
next
  assume "\<forall>i<length (bp s). bpc s ! i > 1"
  then have "near rnd s p = []" by (auto simp: near_def filter_empty_conv not_le)
  then show "closestBranchPoint_fl rnd s p = Inl UnboundLocalError"
    using closestBranchPoint_fl_cases [OF assms, of rnd p] by auto
next
  assume "near rnd s p \<noteq> [] \<and> rnd (sqrt (least_d2 rnd s p)) = 0"
  then show "closestBranchPoint_fl rnd s p = Inl ZeroDivisionError"
    using closestBranchPoint_fl_cases [OF assms, of rnd p] by auto
next
  assume a: "keeps_sign rnd \<and> (\<exists>i<length (bp s). bpc s ! i \<le> 1 \<and> bp s ! i = p)"
  then obtain i where i: "i < length (bp s)" "bpc s ! i \<le> 1" "bp s ! i = p" by blast
  from a have k: "keeps_sign rnd" by simp
  from least_d2_coincide [OF k i] have "near rnd s p \<noteq> []" "rnd (sqrt (least_d2 rnd s p)) = 0"
    using k by (simp_all add: keeps_sign_def)
  then show "closestBranchPoint_fl rnd s p = Inl ZeroDivisionError"
    using closestBranchPoint_fl_cases [OF assms, of rnd p] by auto
next
  assume "near rnd s p \<noteq> [] \<and> rnd (sqrt (least_d2 rnd s p)) \<noteq> 0"
  then show "\<exists>bi w. closestBranchPoint_fl rnd s p = Inr (bi, w, rnd (sqrt (least_d2 rnd s p)))"
    using closestBranchPoint_fl_returns [OF assms, of rnd p] by blast
qed

text \<open>
  Claim C10 as stated (a growable branch point at nonzero distance is enough for a
  result) fails twice on a freshly constructed store, whose root is growable: for a query
  point \<open>2e15\<close> away no result is bound, and for a query point \<open>2^-540\<close> away the square
  underflows and the division is by \<open>0.0\<close>.
\<close>

theorem closestBranchPoint_far_counterexample:
  "bpc (initial_store default_config) ! 0 < 2 \<and>
   bp (initial_store default_config) ! 0 \<noteq> (2 * 10 ^ 15, 0, 0) \<and>
   closestBranchPoint_fl exact (initial_store default_config) (2 * 10 ^ 15, 0, 0) = Inl UnboundLocalError \<and>
   bp (initial_store default_config) ! 0 \<noteq> (1 / 2 ^ 540, 0, 0) \<and>
   closestBranchPoint_fl underflow (initial_store default_config) (1 / 2 ^ 540, 0, 0) = Inl ZeroDivisionError"
  by (simp add: closestBranchPoint_fl_def closest_fl_def exact_def underflow_def initial_store_def
        default_config_def)

theorem closestBranchPoint_defined_witness:
  "closestBranchPoint_fl exact full_store (3, 0, 4) = Inl UnboundLocalError \<and>
   closestBranchPoint_fl exact (initial_store default_config) (2 * 10 ^ 15, 0, 0) = Inl UnboundLocalError \<and>
   closestBranchPoint_fl underflow (initial_store default_config) (1 / 2 ^ 540, 0, 0) = Inl ZeroDivisionError \<and>
   closestBranchPoint_fl exact (initial_store default_config) (0, 0, 0) = Inl ZeroDivisionError \<and>
   (\<exists>bi w. closestBranchPoint_fl exact (initial_store default_config) (3, 0, 4) = Inr (bi, w, 5))"
proof -
  have l1: "length (bpc full_store) = length (bp full_store)"
    and l2: "length (bpc (initial_store default_config)) = length (bp (initial_store default_config))"
    by (simp_all add: full_store_def initial_store_def)
  have "closestBranchPoint_fl exact full_store (3, 0, 4) = Inl UnboundLocalError"
    using closestBranchPoint_defined [OF l1, of exact "(3, 0, 4)"]
    by (simp add: full_store_def initial_store_def)
  moreover have "closestBranchPoint_fl exact (initial_store default_config) (2 * 10 ^ 15, 0, 0) =
      Inl UnboundLocalError"
    using closestBranchPoint_defined [OF l2, of exact "(2 * 10 ^ 15, 0, 0)"]
    by (simp add: near_def computed_d2_def computed_offset_def exact_def initial_store_def)
  moreover have "closestBranchPoint_fl underflow (initial_store default_config) (1 / 2 ^ 540, 0, 0) =
      Inl ZeroDivisionError"
    using closestBranchPoint_defined [OF l2, of underflow "(1 / 2 ^ 540, 0, 0)"]
    by (simp add: near_def least_d2_def computed_d2_def computed_offset_def underflow_def
          initial_store_def)
  moreover have "closestBranchPoint_fl exact (initial_store default_config) (0, 0, 0) =
      Inl ZeroDivisionError"
    using closestBranchPoint_defined [OF l2, of exact "(0, 0, 0)"]
    by (simp add: keeps_sign_def exact_def initial_store_def)
  moreover have "\<exists>bi w. closestBranchPoint_fl exact (initial_store default_config) (3, 0, 4) =
      Inr (bi, w, 5)"
    using closestBranchPoint_defined [OF l2, of exact "(3, 0, 4)"]
    by (simp add: near_example least_example exact_def sqrt25)
  ultimately show ?thesis by blast
qed

subsection \<open>Apical suppression\<close>

text \<open>
  Claim C8. If \<open>apicalcontrol \<le> 0\<close> the shoot is not suppressed. Otherwise, with
  \<open>p = 1 - apicalFactor * apicalcontrol\<close>: if \<open>p \<le> 0\<close> it is suppressed, and if
  \<open>p > 0\<close> it is suppressed exactly when the next random value exceeds \<open>p\<close> raised to
  \<open>apicalcontrolfalloff\<close>. Only the last case consumes a random value.
\<close>

theorem shootSupressed_cases:
  "(apicalcontrol s \<le> 0 \<longrightarrow> shootSupressed env a s = (False, s)) \<and>
   (0 < apicalcontrol s \<and> 1 - a * apicalcontrol s \<le> 0 \<longrightarrow> shootSupressed env a s = (True, s)) \<and>
   (0 < apicalcontrol s \<and> 0 < 1 - a * apicalcontrol s \<longrightarrow>
      shootSupressed env a s =
        (random_draw env (rseed s) (rcursor s) > (1 - a * apicalcontrol s) powr apicalcontrolfalloff s,
         s\<lparr>rcursor := Suc (rcursor s)\<rparr>))"
  by (simp add: shootSupressed_def random_def Let_def)

theorem shootSupressed_cases_witness:
  "fst (shootSupressed plain_runtime 7 (apical_store 0)) = False \<and>
   fst (shootSupressed plain_runtime 2 (apical_store (1 / 2))) = True \<and>
   fst (shootSupressed plain_runtime 1 (apical_store (3 / 4))) = True \<and>
   fst (shootSupressed plain_runtime 1 (apical_store (1 / 4))) = False"
proof -
  have "fst (shootSupressed plain_runtime 7 (apical_store 0)) = False"
    using shootSupressed_cases [of "apical_store 0" plain_runtime 7]
    by (simp add: apical_store_def)
  moreover have "fst (shootSupressed plain_runtime 2 (apical_store (1 / 2))) = True"
    using shootSupressed_cases [of "apical_store (1 / 2)" plain_runtime 2]
    by (simp add: apical_store_def)
  moreover have "fst (shootSupressed plain_runtime 1 (apical_store (3 / 4))) = True"
    using shootSupressed_cases [of "apical_store (3 / 4)" plain_runtime 1]
    by (simp add: apical_store_def initial_store_def default_config_def plain_runtime_def)
  moreover have "fst (shootSupressed plain_runtime 1 (apical_store (1 / 4))) = False"
    using shootSupressed_cases [of "apical_store (1 / 4)" plain_runtime 1]
    by (simp add: apical_store_def initial_store_def default_config_def plain_runtime_def)
  ultimately show ?thesis by blast
qed

subsection \<open>Construction\<close>

lemma append_point_no_parents:
  "bpp s = [] \<Longrightarrow> append_point q (- 1) gen s = Inl IndexError"
  by (simp add: append_point_def Let_def setitem_def getitem_def py_index_def)

lemma addBranchPoint_no_parents:
  "bpp s = [] \<Longrightarrow> addBranchPoint q (- 1) gen s = Inl IndexError"
  by (simp add: addBranchPoint_def append_point_no_parents)

text \<open>
  Claim C4 says that construction with a non-empty list of preset starting points
  completes, each preset a root without parent. The code does not: once the endpoints are
  seeded it empties \<open>bpp\<close> and calls \<open>addBranchPoint\<close> with parent \<open>-1\<close>, whose walk up
  the parent chain reads \<open>bpp[-1]\<close> of the empty list. Construction with presets ends in
  \<open>IndexError\<close>, or earlier in the error of the endpoint seeding.
\<close>

theorem SCA_init_presets_fail:
  "arg_startingpoints c \<noteq> [] \<Longrightarrow>
     SCA_init env c = Inl IndexError \<or>
     (\<exists>e. for_each [0..<nat (arg_NENDPOINTS c)] (\<lambda>i. add_sampled_endpoint env) (initial_store c) = Inl e
          \<and> SCA_init env c = Inl e)"
proof -
  assume ne: "arg_startingpoints c \<noteq> []"
  then obtain q qs where q: "arg_startingpoints c = q # qs" by (cases "arg_startingpoints c") auto
  show ?thesis
  proof (cases "for_each [0..<nat (arg_NENDPOINTS c)] (\<lambda>i. add_sampled_endpoint env) (initial_store c)")
    case (Inl e)
    then show ?thesis by (simp add: SCA_init_def)
  next
    case (Inr s)
    have "addBranchPoint q (- 1) 0 (s\<lparr>bp := [], bpp := [], bpc := []\<rparr>) = Inl IndexError"
      by (rule addBranchPoint_no_parents) simp
    then show ?thesis using Inr q by (simp add: SCA_init_def)
  qed
qed

theorem SCA_init_presets_fail_witness:
  "SCA_init plain_runtime preset_config = Inl IndexError"
  using SCA_init_presets_fail [of preset_config plain_runtime]
  by (simp add: preset_config_def default_config_def)

lemma add_sampled_endpoint_step_kill:
  "add_sampled_endpoint env (s\<lparr>branchlength := x, killdistance := k\<rparr>) =
     (case add_sampled_endpoint env s of
        Inl e \<Rightarrow> Inl e
      | Inr s' \<Rightarrow> Inr (s'\<lparr>branchlength := x, killdistance := k\<rparr>))"
  by (simp add: add_sampled_endpoint_def addEndPoint_def closestBranchPoint_def Let_def
           split: option.splits sum.splits prod.splits)

lemma for_each_step_kill:
  "for_each is (\<lambda>i. add_sampled_endpoint env) (s\<lparr>branchlength := x, killdistance := k\<rparr>) =
     (case for_each is (\<lambda>i. add_sampled_endpoint env) s of
        Inl e \<Rightarrow> Inl e
      | Inr s' \<Rightarrow> Inr (s'\<lparr>branchlength := x, killdistance := k\<rparr>))"
  by (induction "is" arbitrary: s) (simp_all add: add_sampled_endpoint_step_kill split: sum.splits)

lemma initial_store_step_kill:
  "initial_store (c\<lparr>arg_d := x, arg_KILLDIST := k\<rparr>) =
     (initial_store c)\<lparr>branchlength := x, killdistance := k\<rparr>"
  by (simp add: initial_store_def)

text \<open>
  Claim C5, amended. Construction validates nothing. Without preset starting points its
  outcome does not depend on the step length and the kill distance: with other values of
  the two it ends in the same error, or in the same store but for the fields
  \<open>branchlength\<close> and \<open>killdistance\<close>, which hold the values as given, whatever their
  sign. With an endpoint count of zero or less no endpoint is seeded and construction
  succeeds. An influence radius of zero or less is stored as \<open>1e16\<close>.
\<close>

theorem SCA_init_no_validation:
  "arg_startingpoints c = [] \<Longrightarrow>
     SCA_init env (c\<lparr>arg_d := x, arg_KILLDIST := k\<rparr>) =
       (case SCA_init env c of
          Inl e \<Rightarrow> Inl e
        | Inr s \<Rightarrow> Inr (s\<lparr>branchlength := x, killdistance := k\<rparr>)) \<and>
     (arg_NENDPOINTS c \<le> 0 \<longrightarrow> SCA_init env c = Inr (initial_store c)) \<and>
     influence (initial_store c) = (if arg_INFLUENCE c > 0 then arg_INFLUENCE c else 10 ^ 16)"
  by (simp add: SCA_init_def initial_store_step_kill for_each_step_kill split: sum.splits)
    (simp add: initial_store_def)

theorem SCA_init_no_validation_witness:
  "SCA_init plain_runtime invalid_config =
     Inr ((initial_store seedless_config)\<lparr>branchlength := 0, killdistance := - 1\<rparr>) \<and>
   influence (initial_store seedless_config) = 10 ^ 16"
  using SCA_init_no_validation [where c = seedless_config and env = plain_runtime and x = 0 and k = "- 1"]
  by (simp add: invalid_config_def) (simp add: seedless_config_def default_config_def)

text \<open>
  The claim as stated fails: a configuration with a zero step length, a negative endpoint
  count and negative radii is constructed without error.
\<close>

theorem SCA_init_invalid_counterexample:
  "arg_d invalid_config \<le> 0 \<and> arg_NENDPOINTS invalid_config \<le> 0 \<and>
   arg_KILLDIST invalid_config < 0 \<and> arg_INFLUENCE invalid_config < 0 \<and>
   SCA_init plain_runtime invalid_config = Inr (initial_store invalid_config) \<and>
   branchlength (initial_store invalid_config) = 0 \<and>
   killdistance (initial_store invalid_config) = - 1"
  by (simp add: SCA_init_def invalid_config_def seedless_config_def default_config_def
        initial_store_def)

subsection \<open>Loops\<close>

lemma for_each_invariant:
  "for_each is f s = Inr s' \<Longrightarrow> P s \<Longrightarrow>
   (\<And>i t t'. i \<in> set is \<Longrightarrow> P t \<Longrightarrow> f i t = Inr t' \<Longrightarrow> P t') \<Longrightarrow> P s'"
proof (induction "is" arbitrary: s)
  case Nil
  then show ?case by simp
next
  case (Cons i "is")
  from Cons.prems(1) obtain t where t: "f i s = Inr t" "for_each is f t = Inr s'"
    by (auto split: sum.splits)
  have pt: "P t" using Cons.prems(3) [of i s t] Cons.prems(2) t(1) by simp
  show ?case
  proof (rule Cons.IH [OF t(2) pt])
    fix j u u'
    assume "j \<in> set is" "P u" "f j u = Inr u'"
    then show "P u'" using Cons.prems(3) [of j u u'] by simp
  qed
qed

lemma for_each_append:
  "for_each (xs @ ys) f s = (case for_each xs f s of Inl e \<Rightarrow> Inl e | Inr t \<Rightarrow> for_each ys f t)"
  by (induction xs arbitrary: s) (auto split: sum.splits)

lemma for_each_upt_invariant:
  "for_each [0..<n] f s = Inr s' \<Longrightarrow> P 0 s \<Longrightarrow>
   (\<And>i t t'. i < n \<Longrightarrow> P i t \<Longrightarrow> f i t = Inr t' \<Longrightarrow> P (Suc i) t') \<Longrightarrow> P n s'"
proof (induction n arbitrary: s')
  case 0
  then show ?case by simp
next
  case (Suc n)
  from Suc.prems(1) obtain t where t: "for_each [0..<n] f s = Inr t" "f n t = Inr s'"
    by (auto simp: for_each_append split: sum.splits)
  have "P n t"
  proof (rule Suc.IH [OF t(1) Suc.prems(2)])
    fix j u u'
    assume "j < n" "P j u" "f j u = Inr u'"
    then show "P (Suc j) u'" using Suc.prems(3) [of j u u'] by simp
  qed
  then show ?case using Suc.prems(3) [of n t s'] t(2) by simp
qed

subsection \<open>What addBranchPoint does to the endpoints\<close>

lemma sweep_step_effect:
  assumes "sweep_step p bi k t = Inr t'"
  shows "t' = t\<lparr>epb := (epb t)[k := fst (retarget p bi t k)],
                 epv := (epv t)[k := fst (snd (retarget p bi t k))],
                 epd := (epd t)[k := snd (snd (retarget p bi t k))]\<rparr>"
  using assms
  by (auto simp: sweep_step_def retarget_def endpoint_def dist2_def offset_def scaled_def Let_def
           split: if_splits)

lemma same_but_endpoints_fields:
  assumes "same_but_endpoints s t"
  shows "ep t = ep s" "killdistance t = killdistance s" "influence t = influence s"
        "bp t = bp s" "bpc t = bpc s" "bpa t = bpa s" "bpp t = bpp s" "bpg t = bpg s"
        "length (epb t) = length (epb s)" "length (epv t) = length (epv s)"
        "length (epd t) = length (epd s)"
proof -
  from assms have e: "t = s\<lparr>epb := epb t, epv := epv t, epd := epd t\<rparr>"
    and l: "length (epb t) = length (epb s)" "length (epv t) = length (epv s)" "length (epd t) = length (epd s)"
    by (simp_all add: same_but_endpoints_def)
  show "ep t = ep s" by (subst e) simp
  show "killdistance t = killdistance s" by (subst e) simp
  show "influence t = influence s" by (subst e) simp
  show "bp t = bp s" by (subst e) simp
  show "bpc t = bpc s" by (subst e) simp
  show "bpa t = bpa s" by (subst e) simp
  show "bpp t = bpp s" by (subst e) simp
  show "bpg t = bpg s" by (subst e) simp
  show "length (epb t) = length (epb s)" "length (epv t) = length (epv s)"
        "length (epd t) = length (epd s)" using l by simp_all
qed

lemma same_but_endpoints_refl: "same_but_endpoints s s"
  by (simp add: same_but_endpoints_def)

lemma same_but_endpoints_update:
  assumes "same_but_endpoints s t"
  shows "same_but_endpoints s (t\<lparr>epb := (epb t)[k := b], epv := (epv t)[k := w], epd := (epd t)[k := d]\<rparr>)"
proof -
  from assms have e: "t = s\<lparr>epb := epb t, epv := epv t, epd := epd t\<rparr>"
    and l: "length (epb t) = length (epb s)" "length (epv t) = length (epv s)" "length (epd t) = length (epd s)"
    by (simp_all add: same_but_endpoints_def)
  have "t\<lparr>epb := (epb t)[k := b], epv := (epv t)[k := w], epd := (epd t)[k := d]\<rparr> =
        s\<lparr>epb := (epb t)[k := b], epv := (epv t)[k := w], epd := (epd t)[k := d]\<rparr>"
    by (subst e) simp
  then show ?thesis using l by (simp add: same_but_endpoints_def)
qed

lemma sweep_loop_effect:
  assumes run: "for_each [0..<n] (sweep_step p bi) s = Inr s'"
    and n: "n \<le> length (epb s)" "n \<le> length (epv s)" "n \<le> length (epd s)"
  shows "same_but_endpoints s s' \<and> (\<forall>i<n. endpoint s' i = retarget p bi s i) \<and>
         (\<forall>i\<ge>n. endpoint s' i = endpoint s i)"
proof -
  let ?P = "\<lambda>k t. k \<le> n \<and> same_but_endpoints s t \<and> (\<forall>i<k. endpoint t i = retarget p bi s i) \<and>
         (\<forall>i\<ge>k. endpoint t i = endpoint s i)"
  have "?P n s'"
  proof (rule for_each_upt_invariant [OF run, where P = ?P])
    show "?P 0 s" by (simp add: same_but_endpoints_refl)
  next
    fix k t t'
    assume k: "k < n" and P: "?P k t" and st: "sweep_step p bi k t = Inr t'"
    from P have sb: "same_but_endpoints s t" and lo: "\<forall>i<k. endpoint t i = retarget p bi s i"
      and hi: "\<forall>i\<ge>k. endpoint t i = endpoint s i" by simp_all
    note f = same_but_endpoints_fields [OF sb]
    have ek: "endpoint t k = endpoint s k" using hi by simp
    then have rk: "retarget p bi t k = retarget p bi s k"
      by (simp add: retarget_def endpoint_def f Let_def cong: if_cong)
    have t': "t' = t\<lparr>epb := (epb t)[k := fst (retarget p bi s k)],
                 epv := (epv t)[k := fst (snd (retarget p bi s k))],
                 epd := (epd t)[k := snd (snd (retarget p bi s k))]\<rparr>"
      using sweep_step_effect [OF st] rk by simp
    have kl: "k < length (epb t)" "k < length (epv t)" "k < length (epd t)"
      using k n f by simp_all
    have a: "same_but_endpoints s t'" unfolding t' by (rule same_but_endpoints_update [OF sb])
    have b: "endpoint t' k = retarget p bi s k"
      unfolding t' using kl by (simp add: endpoint_def)
    have c: "\<And>i. i \<noteq> k \<Longrightarrow> endpoint t' i = endpoint t i"
      unfolding t' by (simp add: endpoint_def)
    have "\<forall>i<Suc k. endpoint t' i = retarget p bi s i"
      using b c lo by (auto simp: less_Suc_eq)
    moreover have "\<forall>i\<ge>Suc k. endpoint t' i = endpoint s i"
      using c hi by auto
    ultimately show "?P (Suc k) t'" using a k by simp
  qed
  then show ?thesis by simp
qed

lemma closestBranchPoint_cong:
  "bp t = bp s \<Longrightarrow> bpc t = bpc s \<Longrightarrow> influence t = influence s \<Longrightarrow>
     closestBranchPoint t x = closestBranchPoint s x"
  by (simp add: closestBranchPoint_def Let_def split: sum.splits prod.splits)

lemma reassign_step_effect:
  assumes "reassign_step pidx k t = Inr t'"
  shows "(epb t ! k = pidx \<and> k < length (ep t) \<and> k < length (epv t) \<and> k < length (epd t) \<and>
          (\<exists>b w d. closestBranchPoint t (ep t ! k) = Inr (b, w, d) \<and>
             t' = t\<lparr>epb := (epb t)[k := b], epv := (epv t)[k := w], epd := (epd t)[k := d]\<rparr>))
         \<or> (epb t ! k \<noteq> pidx \<and> t' = t)"
  using assms
  by (auto simp: reassign_step_def split: if_splits sum.splits prod.splits)

lemma reassign_loop_effect:
  assumes run: "for_each [0..<n] (reassign_step pidx) s = Inr s'"
    and n: "n \<le> length (epb s)"
  shows "same_but_endpoints s s' \<and>
         (\<forall>i<n. if epb s ! i = pidx then closestBranchPoint s (ep s ! i) = Inr (endpoint s' i)
                 else endpoint s' i = endpoint s i) \<and>
         (\<forall>i\<ge>n. endpoint s' i = endpoint s i)"
proof -
  let ?P = "\<lambda>k t. same_but_endpoints s t \<and>
         (\<forall>i<k. if epb s ! i = pidx then closestBranchPoint s (ep s ! i) = Inr (endpoint t i)
                 else endpoint t i = endpoint s i) \<and>
         (\<forall>i\<ge>k. endpoint t i = endpoint s i)"
  have "?P n s'"
  proof (rule for_each_upt_invariant [OF run, where P = ?P])
    show "?P 0 s" by (simp add: same_but_endpoints_refl)
  next
    fix k t t'
    assume k: "k < n" and P: "?P k t" and st: "reassign_step pidx k t = Inr t'"
    from P have sb: "same_but_endpoints s t"
      and lo: "\<forall>i<k. if epb s ! i = pidx then closestBranchPoint s (ep s ! i) = Inr (endpoint t i)
                 else endpoint t i = endpoint s i"
      and hi: "\<forall>i\<ge>k. endpoint t i = endpoint s i" by simp_all
    note f = same_but_endpoints_fields [OF sb]
    have ek: "endpoint t k = endpoint s k" using hi by simp
    then have bk: "epb t ! k = epb s ! k" by (simp add: endpoint_def)
    have cb: "\<And>x. closestBranchPoint t x = closestBranchPoint s x"
      by (rule closestBranchPoint_cong) (simp_all add: f)
    from reassign_step_effect [OF st] show "?P (Suc k) t'"
    proof (elim disjE conjE exE)
      fix b w d
      assume a: "epb t ! k = pidx" "k < length (ep t)" "k < length (epv t)" "k < length (epd t)"
        "closestBranchPoint t (ep t ! k) = Inr (b, w, d)"
        and t': "t' = t\<lparr>epb := (epb t)[k := b], epv := (epv t)[k := w], epd := (epd t)[k := d]\<rparr>"
      have kl: "k < length (epb t)" using k n f by simp
      have sb': "same_but_endpoints s t'" unfolding t' by (rule same_but_endpoints_update [OF sb])
      have b: "endpoint t' k = (b, w, d)" unfolding t' using kl a by (simp add: endpoint_def)
      have c: "\<And>i. i \<noteq> k \<Longrightarrow> endpoint t' i = endpoint t i"
        unfolding t' by (simp add: endpoint_def)
      have ck: "closestBranchPoint s (ep s ! k) = Inr (endpoint t' k)"
        using a(5) cb b f(1) by simp
      have "\<forall>i<Suc k. if epb s ! i = pidx then closestBranchPoint s (ep s ! i) = Inr (endpoint t' i)
                 else endpoint t' i = endpoint s i"
      proof (intro allI impI)
        fix i assume "i < Suc k"
        then consider "i < k" | "i = k" by linarith
        then show "if epb s ! i = pidx then closestBranchPoint s (ep s ! i) = Inr (endpoint t' i)
                 else endpoint t' i = endpoint s i"
        proof cases
          case 1
          then show ?thesis using lo c [of i] by auto
        next
          case 2
          then show ?thesis using ck a(1) bk by simp
        qed
      qed
      moreover have "\<forall>i\<ge>Suc k. endpoint t' i = endpoint s i" using c hi by auto
      ultimately show ?thesis using sb' by simp
    next
      assume a: "epb t ! k \<noteq> pidx" "t' = t"
      have "\<forall>i<Suc k. if epb s ! i = pidx then closestBranchPoint s (ep s ! i) = Inr (endpoint t' i)
                 else endpoint t' i = endpoint s i"
      proof (intro allI impI)
        fix i assume "i < Suc k"
        then consider "i < k" | "i = k" by linarith
        then show "if epb s ! i = pidx then closestBranchPoint s (ep s ! i) = Inr (endpoint t' i)
                 else endpoint t' i = endpoint s i"
        proof cases
          case 1
          then show ?thesis using lo a(2) by auto
        next
          case 2
          then show ?thesis using a bk ek by simp
        qed
      qed
      moreover have "\<forall>i\<ge>Suc k. endpoint t' i = endpoint s i" using a(2) hi by auto
      ultimately show ?thesis using sb a(2) by simp
    qed
  qed
  then show ?thesis by simp
qed

lemma walk_length: "walk fuel par gen start g = Inr g' \<Longrightarrow> length g' = length g"
  by (induction fuel par gen start g rule: walk.induct)
     (auto simp: setitem_def split: sum.splits option.splits)

lemma append_point_effect:
  assumes "append_point p pidx gen s = Inr s3"
  shows "\<exists>g k. py_index (Suc (length (bpc s))) pidx = Some k \<and>
           py_index (length (bpp s)) pidx \<noteq> None \<and> length g = Suc (length (bpg s)) \<and>
           s3 = s\<lparr>bp := bp s @ [p], bpg := g, bpp := bpp s @ [Some pidx],
                   bpc := (bpc s @ [0])[k := (bpc s @ [0]) ! k + 1], bpa := bpa s @ [0]\<rparr>"
proof -
  from assms obtain g where g: "walk (Suc (length (bpp s))) (bpp s) gen (Some pidx) (bpg s @ [gen]) = Inr g"
    by (auto simp: append_point_def Let_def split: sum.splits)
  then have pp: "py_index (length (bpp s)) pidx \<noteq> None"
    by (auto simp: getitem_def split: sum.splits option.splits)
  have lg: "length g = Suc (length (bpg s))" using walk_length [OF g] by simp
  from assms g obtain k where "py_index (Suc (length (bpc s))) pidx = Some k"
    "s3 = s\<lparr>bp := bp s @ [p], bpg := g, bpp := bpp s @ [Some pidx],
                   bpc := (bpc s @ [0])[k := (bpc s @ [0]) ! k + 1], bpa := bpa s @ [0]\<rparr>"
    by (auto simp: append_point_def Let_def getitem_def setitem_def split: sum.splits option.splits)
  with pp lg show ?thesis by blast
qed

lemma count_branch_event_effect:
  "count_branch_event pidx s = Inr s' \<Longrightarrow> \<exists>bs. s' = s\<lparr>bpa := bs\<rparr> \<and> length bs = length (bpa s)"
  by (auto simp: count_branch_event_def setitem_def split: sum.splits option.splits)

lemma retarget_cong:
  "ep t = ep s \<Longrightarrow> epb t = epb s \<Longrightarrow> epv t = epv s \<Longrightarrow> epd t = epd s \<Longrightarrow>
   killdistance t = killdistance s \<Longrightarrow> influence t = influence s \<Longrightarrow>
     retarget p bi t i = retarget p bi s i"
  by (simp add: retarget_def endpoint_def Let_def)

lemma addBranchPoint_effect:
  assumes run: "addBranchPoint p pidx gen s = Inr s'" and al: "aligned s"
  shows "\<exists>s3 s4 s5 c.
           append_point p pidx gen s = Inr s3 \<and>
           same_but_endpoints s3 s4 \<and> same_but_endpoints s4 s5 \<and>
           (\<forall>i<length (ep s). endpoint s4 i = retarget p (int (length (bp s))) s i) \<and>
           getitem (bpc s3) pidx = Inr c \<and>
           (\<forall>i<length (ep s).
              if 1 < c \<and> epb s4 ! i = pidx then closestBranchPoint s3 (ep s ! i) = Inr (endpoint s5 i)
              else endpoint s5 i = endpoint s4 i) \<and>
           (\<exists>bs. s' = s5\<lparr>bpa := bs\<rparr> \<and> length bs = length (bpa s5))"
proof -
  from run obtain s3 s4 s5 where
    a: "append_point p pidx gen s = Inr s3" and
    b: "sweep_endpoints p s3 = Inr s4" and
    c: "reassign_endpoints pidx s4 = Inr s5" and
    d: "count_branch_event pidx s5 = Inr s'"
    by (auto simp: addBranchPoint_def split: sum.splits)
  from append_point_effect [OF a] obtain g k where
    s3: "s3 = s\<lparr>bp := bp s @ [p], bpg := g, bpp := bpp s @ [Some pidx],
                   bpc := (bpc s @ [0])[k := (bpc s @ [0]) ! k + 1], bpa := bpa s @ [0]\<rparr>"
    by blast
  have e3: "ep s3 = ep s" "epb s3 = epb s" "epv s3 = epv s" "epd s3 = epd s"
    "killdistance s3 = killdistance s" "influence s3 = influence s" "bp s3 = bp s @ [p]"
    by (simp_all add: s3)
  have n: "min (length (ep s3)) (min (length (epd s3)) (length (epb s3))) = length (ep s)"
    using al by (simp add: e3 aligned_def)
  have bi: "int (length (bp s3)) - 1 = int (length (bp s))" by (simp add: e3)
  from b have b': "for_each [0..<length (ep s)] (sweep_step p (int (length (bp s)))) s3 = Inr s4"
    by (simp add: sweep_endpoints_def n bi)
  have sw: "same_but_endpoints s3 s4 \<and> (\<forall>i<length (ep s). endpoint s4 i = retarget p (int (length (bp s))) s3 i)"
    using sweep_loop_effect [OF b'] al by (simp add: e3 aligned_def)
  have rt: "\<And>i. retarget p (int (length (bp s))) s3 i = retarget p (int (length (bp s))) s i"
    by (rule retarget_cong) (simp_all add: e3)
  note f4 = same_but_endpoints_fields [OF conjunct1 [OF sw]]
  from c obtain cc where cc: "getitem (bpc s4) pidx = Inr cc"
    and c': "(if 1 < cc then for_each [0..<length (epb s4)] (reassign_step pidx) s4 else Inr s4) = Inr s5"
    by (auto simp: reassign_endpoints_def split: sum.splits)
  have cc3: "getitem (bpc s3) pidx = Inr cc" using cc f4 by simp
  have l4: "length (epb s4) = length (ep s)" using f4 al by (simp add: e3 aligned_def)
  have re: "same_but_endpoints s4 s5 \<and>
            (\<forall>i<length (ep s).
              if 1 < cc \<and> epb s4 ! i = pidx then closestBranchPoint s3 (ep s ! i) = Inr (endpoint s5 i)
              else endpoint s5 i = endpoint s4 i)"
  proof (cases "1 < cc")
    case True
    with c' have "for_each [0..<length (epb s4)] (reassign_step pidx) s4 = Inr s5" by simp
    from reassign_loop_effect [OF this]
    have r: "same_but_endpoints s4 s5"
      "\<forall>i<length (epb s4). if epb s4 ! i = pidx then closestBranchPoint s4 (ep s4 ! i) = Inr (endpoint s5 i)
                 else endpoint s5 i = endpoint s4 i" by simp_all
    have cb: "\<And>x. closestBranchPoint s4 x = closestBranchPoint s3 x"
      by (rule closestBranchPoint_cong) (simp_all add: f4)
    have e4: "ep s4 = ep s" using f4 e3 by simp
    have "\<forall>i<length (ep s). if epb s4 ! i = pidx then closestBranchPoint s3 (ep s ! i) = Inr (endpoint s5 i)
                 else endpoint s5 i = endpoint s4 i"
      using r(2) unfolding cb e4 l4 .
    with r(1) True show ?thesis by simp
  next
    case False
    with c' have "s5 = s4" by simp
    with False show ?thesis by (simp add: same_but_endpoints_refl)
  qed
  have sw2: "\<forall>i<length (ep s). endpoint s4 i = retarget p (int (length (bp s))) s i"
    using sw rt by simp
  from count_branch_event_effect [OF d] obtain bs where
    bs: "s' = s5\<lparr>bpa := bs\<rparr> \<and> length bs = length (bpa s5)" by blast
  have "append_point p pidx gen s = Inr s3 \<and>
           same_but_endpoints s3 s4 \<and> same_but_endpoints s4 s5 \<and>
           (\<forall>i<length (ep s). endpoint s4 i = retarget p (int (length (bp s))) s i) \<and>
           getitem (bpc s3) pidx = Inr cc \<and>
           (\<forall>i<length (ep s).
              if 1 < cc \<and> epb s4 ! i = pidx then closestBranchPoint s3 (ep s ! i) = Inr (endpoint s5 i)
              else endpoint s5 i = endpoint s4 i) \<and>
           (\<exists>bs. s' = s5\<lparr>bpa := bs\<rparr> \<and> length bs = length (bpa s5))"
    using a sw sw2 cc3 re bs by blast
  then show ?thesis by blast
qed

lemma upt2: "[0..<2] = [0, 1]" 
  by (simp add: upt_rec)

lemma crowded_run:
  "addBranchPoint (0, 0, - 3) 0 1 crowded_store =
     Inr (crowded_store\<lparr>bp := [(0, 0, 0), (0, 3, 0), (0, 0, - 3)], bpg := [1, 0, 1],
            bpp := [None, Some 0, Some 0], bpc := [2, 0, 0], bpa := [2, 0, 0],
            epb := [1, - 1], epv := [(4 / 5, - 3 / 5, 0), (0, 0, - 1)], epd := [5, 1]\<rparr>)"
  by (simp add: addBranchPoint_def append_point_def sweep_endpoints_def reassign_endpoints_def
        count_branch_event_def sweep_step_def reassign_step_def closestBranchPoint_def closest_def
        crowded_store_def initial_store_def default_config_def getitem_def setitem_def py_index_def
        Let_def upt2 sqrt25)

lemma crowded_run_near:
  "addBranchPoint (4, 0, 2) 0 1 crowded_store =
     Inr (crowded_store\<lparr>bp := [(0, 0, 0), (0, 3, 0), (4, 0, 2)], bpg := [1, 0, 1],
            bpp := [None, Some 0, Some 0], bpc := [2, 0, 0], bpa := [2, 0, 0],
            epb := [2, - 1], epv := [(0, 0, - 1), (0, 0, - 1)], epd := [2, 1]\<rparr>)"
  by (simp add: addBranchPoint_def append_point_def sweep_endpoints_def reassign_endpoints_def
        count_branch_event_def sweep_step_def reassign_step_def closestBranchPoint_def closest_def
        crowded_store_def initial_store_def default_config_def getitem_def setitem_def py_index_def
        Let_def upt2)

lemma crowded_run_kill:
  "addBranchPoint (4, 0, 1) 0 1 crowded_store =
     Inr (crowded_store\<lparr>bp := [(0, 0, 0), (0, 3, 0), (4, 0, 1)], bpg := [1, 0, 1],
            bpp := [None, Some 0, Some 0], bpc := [2, 0, 0], bpa := [2, 0, 0],
            epb := [- 1, - 1]\<rparr>)"
  by (simp add: addBranchPoint_def append_point_def sweep_endpoints_def reassign_endpoints_def
        count_branch_event_def sweep_step_def reassign_step_def closestBranchPoint_def closest_def
        crowded_store_def initial_store_def default_config_def getitem_def setitem_def py_index_def
        Let_def upt2)

lemma crowded_facts:
  "aligned crowded_store" "(0::int) < int (length (bp crowded_store))"
  "0 < length (ep crowded_store)" "epb crowded_store ! 0 \<noteq> - 1"
  by (simp_all add: crowded_store_def aligned_def)

text \<open>
  Claim C3, amended. Take a call of \<open>addBranchPoint\<close> that completes, on a store with one
  entry per endpoint in each endpoint array and with an existing branch point as parent,
  and an endpoint that is not dead; let \<open>d\<close> be its distance to the new point. If \<open>d\<close> is
  smaller than the recorded distance: when \<open>d\<close> is at most the kill distance the
  association becomes \<open>-1\<close> (dead); otherwise direction and distance are those to the new
  point and the association is the new index when \<open>d\<close> is below the influence radius and
  \<open>-2\<close> (out of range) when not. If \<open>d\<close> is not smaller, the endpoint is unchanged,
  unless it is associated with the parent and the parent now has more than one child:
  then its record is what \<open>closestBranchPoint\<close> gives on the store after the call.
\<close>

theorem addBranchPoint_endpoints:
  assumes run: "addBranchPoint p pidx gen s = Inr s'" and al: "aligned s"
    and par: "0 \<le> pidx" "pidx < int (length (bp s))"
    and i: "i < length (ep s)" and live: "epb s ! i \<noteq> - 1"
  shows "(sqrt (dist2 (ep s ! i) p) < epd s ! i \<and> sqrt (dist2 (ep s ! i) p) \<le> killdistance s \<longrightarrow>
            epb s' ! i = - 1) \<and>
         (sqrt (dist2 (ep s ! i) p) < epd s ! i \<and> killdistance s < sqrt (dist2 (ep s ! i) p) \<longrightarrow>
            epb s' ! i = (if sqrt (dist2 (ep s ! i) p) < influence s then int (length (bp s)) else - 2) \<and>
            epv s' ! i = scaled (offset (ep s ! i) p) (sqrt (dist2 (ep s ! i) p)) \<and>
            epd s' ! i = sqrt (dist2 (ep s ! i) p)) \<and>
         (\<not> sqrt (dist2 (ep s ! i) p) < epd s ! i \<and> \<not> (epb s ! i = pidx \<and> 1 < bpc s' ! nat pidx) \<longrightarrow>
            endpoint s' i = endpoint s i) \<and>
         (\<not> sqrt (dist2 (ep s ! i) p) < epd s ! i \<and> epb s ! i = pidx \<and> 1 < bpc s' ! nat pidx \<longrightarrow>
            closestBranchPoint s' (ep s ! i) = Inr (endpoint s' i))"
proof -
  let ?d = "sqrt (dist2 (ep s ! i) p)"
  from addBranchPoint_effect [OF run al] obtain s3 s4 s5 c bs where
    a: "append_point p pidx gen s = Inr s3" and
    sb34: "same_but_endpoints s3 s4" and sb45: "same_but_endpoints s4 s5" and
    sw: "\<forall>i<length (ep s). endpoint s4 i = retarget p (int (length (bp s))) s i" and
    c: "getitem (bpc s3) pidx = Inr c" and
    re: "\<forall>i<length (ep s).
              if 1 < c \<and> epb s4 ! i = pidx then closestBranchPoint s3 (ep s ! i) = Inr (endpoint s5 i)
              else endpoint s5 i = endpoint s4 i" and
    s': "s' = s5\<lparr>bpa := bs\<rparr>"
    by blast
  note f4 = same_but_endpoints_fields [OF sb34]
  note f5 = same_but_endpoints_fields [OF sb45]
  have e': "endpoint s' i = endpoint s5 i" by (simp add: s' endpoint_def)
  have bpc': "bpc s' = bpc s3" by (simp add: s' f4 f5)
  have cb: "\<And>x. closestBranchPoint s' x = closestBranchPoint s3 x"
    by (rule closestBranchPoint_cong) (simp_all add: s' f4 f5)
  have cv: "c = bpc s' ! nat pidx"
    using c par(1) by (auto simp: bpc' getitem_def py_index_def split: option.splits if_splits)
  have e4: "endpoint s4 i = retarget p (int (length (bp s))) s i" using sw i by simp
  have e5: "if 1 < c \<and> epb s4 ! i = pidx then closestBranchPoint s3 (ep s ! i) = Inr (endpoint s5 i)
              else endpoint s5 i = endpoint s4 i" using re i by simp
  have p1: "epb s' ! i = - 1" if "?d < epd s ! i" "?d \<le> killdistance s"
  proof -
    have "endpoint s4 i = (- 1, epv s ! i, epd s ! i)"
      using that live by (simp add: e4 retarget_def Let_def)
    then have "epb s4 ! i = - 1" by (simp add: endpoint_def)
    with par(1) e5 have "endpoint s5 i = endpoint s4 i" by auto
    with \<open>epb s4 ! i = - 1\<close> e' show ?thesis by (simp add: endpoint_def)
  qed
  have p2: "epb s' ! i = (if ?d < influence s then int (length (bp s)) else - 2) \<and>
            epv s' ! i = scaled (offset (ep s ! i) p) ?d \<and> epd s' ! i = ?d"
    if "?d < epd s ! i" "killdistance s < ?d"
  proof -
    have r: "endpoint s4 i = (if ?d < influence s then int (length (bp s)) else - 2,
                scaled (offset (ep s ! i) p) ?d, ?d)"
      using that live by (simp add: e4 retarget_def Let_def)
    then have "epb s4 ! i \<noteq> pidx" using par by (auto simp: endpoint_def split: if_splits)
    with e5 have "endpoint s5 i = endpoint s4 i" by auto
    with r e' show ?thesis by (simp add: endpoint_def)
  qed
  have r3: "endpoint s4 i = endpoint s i" if "\<not> ?d < epd s ! i"
    using that by (simp add: e4 retarget_def Let_def)
  have p3: "endpoint s' i = endpoint s i"
    if "\<not> ?d < epd s ! i" "\<not> (epb s ! i = pidx \<and> 1 < bpc s' ! nat pidx)"
  proof -
    have "epb s4 ! i = epb s ! i" using r3 [OF that(1)] by (simp add: endpoint_def)
    with that(2) cv e5 have "endpoint s5 i = endpoint s4 i" by auto
    with r3 [OF that(1)] e' show ?thesis by simp
  qed
  have p4: "closestBranchPoint s' (ep s ! i) = Inr (endpoint s' i)"
    if "\<not> ?d < epd s ! i" "epb s ! i = pidx" "1 < bpc s' ! nat pidx"
  proof -
    have "epb s4 ! i = epb s ! i" using r3 [OF that(1)] by (simp add: endpoint_def)
    with that(2,3) cv e5 have "closestBranchPoint s3 (ep s ! i) = Inr (endpoint s5 i)" by auto
    then show ?thesis by (simp add: cb e')
  qed
  from p1 p2 p3 p4 show ?thesis by blast
qed

theorem addBranchPoint_endpoints_witness:
  "(\<exists>s'. addBranchPoint (4, 0, 1) 0 1 crowded_store = Inr s' \<and> epb s' ! 0 = - 1) \<and>
   (\<exists>s'. addBranchPoint (4, 0, 2) 0 1 crowded_store = Inr s' \<and>
         epb s' ! 0 = 2 \<and> epv s' ! 0 = (0, 0, - 1) \<and> epd s' ! 0 = 2) \<and>
   (\<exists>s'. addBranchPoint (0, 0, - 3) 0 1 crowded_store = Inr s' \<and>
         closestBranchPoint s' (4, 0, 0) = Inr (endpoint s' 0))"
proof -
  have z: "(0::int) \<le> 0" by simp
  note t = addBranchPoint_endpoints [OF _ crowded_facts(1) z crowded_facts(2,3,4)]
  have "epb (crowded_store\<lparr>bp := [(0, 0, 0), (0, 3, 0), (4, 0, 1)], bpg := [1, 0, 1],
            bpp := [None, Some 0, Some 0], bpc := [2, 0, 0], bpa := [2, 0, 0],
            epb := [- 1, - 1]\<rparr>) ! 0 = - 1"
    using t [OF crowded_run_kill] by (simp add: crowded_store_def dist2_def)
  moreover have "epb (crowded_store\<lparr>bp := [(0, 0, 0), (0, 3, 0), (4, 0, 2)], bpg := [1, 0, 1],
            bpp := [None, Some 0, Some 0], bpc := [2, 0, 0], bpa := [2, 0, 0],
            epb := [2, - 1], epv := [(0, 0, - 1), (0, 0, - 1)], epd := [2, 1]\<rparr>) ! 0 = 2"
    using t [OF crowded_run_near] by (simp add: crowded_store_def dist2_def)
  moreover have "closestBranchPoint (crowded_store\<lparr>bp := [(0, 0, 0), (0, 3, 0), (0, 0, - 3)], bpg := [1, 0, 1],
            bpp := [None, Some 0, Some 0], bpc := [2, 0, 0], bpa := [2, 0, 0],
            epb := [1, - 1], epv := [(4 / 5, - 3 / 5, 0), (0, 0, - 1)], epd := [5, 1]\<rparr>) (4, 0, 0)
        = Inr (endpoint (crowded_store\<lparr>bp := [(0, 0, 0), (0, 3, 0), (0, 0, - 3)], bpg := [1, 0, 1],
            bpp := [None, Some 0, Some 0], bpc := [2, 0, 0], bpa := [2, 0, 0],
            epb := [1, - 1], epv := [(4 / 5, - 3 / 5, 0), (0, 0, - 1)], epd := [5, 1]\<rparr>) 0)"
    using t [OF crowded_run] by (simp add: crowded_store_def dist2_def sqrt25)
  ultimately show ?thesis
    by (simp add: crowded_run crowded_run_near crowded_run_kill)
qed

subsection \<open>Dead endpoints stay dead\<close>

lemma dead_kept_refl: "dead_kept s s"
  by (simp add: dead_kept_def)

lemma dead_kept_trans: "dead_kept s t \<Longrightarrow> dead_kept t u \<Longrightarrow> dead_kept s u"
  by (auto simp: dead_kept_def)

lemma dead_kept_epb: "epb t = epb s \<Longrightarrow> dead_kept s t"
  by (simp add: dead_kept_def)

lemma nth_update_keeps:
  "xs ! i = a \<Longrightarrow> xs ! k \<noteq> a \<or> b = a \<Longrightarrow> xs[k := b] ! i = a"
  by (cases "i = k"; cases "k < length xs") auto

lemma dead_kept_update:
  "epb t ! k \<noteq> - 1 \<or> b = - 1 \<Longrightarrow> epb t' = (epb t)[k := b] \<Longrightarrow> dead_kept t t'"
  by (simp add: dead_kept_def nth_update_keeps)

lemma sweep_step_dead: "sweep_step p bi k t = Inr t' \<Longrightarrow> dead_kept t t'"
proof -
  assume a: "sweep_step p bi k t = Inr t'"
  have "epb t ! k \<noteq> - 1 \<or> fst (retarget p bi t k) = - 1"
    by (simp add: retarget_def endpoint_def Let_def)
  moreover have "epb t' = (epb t)[k := fst (retarget p bi t k)]"
    by (subst sweep_step_effect [OF a]) simp
  ultimately show ?thesis by (rule dead_kept_update)
qed

lemma sweep_step_bpc: "sweep_step p bi k t = Inr t' \<Longrightarrow> bpc t' = bpc t"
  by (auto simp: sweep_step_def Let_def split: if_splits)

lemma sweep_endpoints_dead:
  assumes "sweep_endpoints p s = Inr s'"
  shows "dead_kept s s' \<and> bpc s' = bpc s"
proof -
  let ?P = "\<lambda>t. dead_kept s t \<and> bpc t = bpc s"
  from assms have run: "for_each [0..<min (length (ep s)) (min (length (epd s)) (length (epb s)))]
       (sweep_step p (int (length (bp s)) - 1)) s = Inr s'" by (simp add: sweep_endpoints_def)
  show ?thesis
  proof (rule for_each_invariant [OF run, where P = ?P])
    show "?P s" by (simp add: dead_kept_refl)
  next
    fix i t t'
    assume "?P t" "sweep_step p (int (length (bp s)) - 1) i t = Inr t'"
    then show "?P t'"
      using sweep_step_dead [of p "int (length (bp s)) - 1" i t t']
        sweep_step_bpc [of p "int (length (bp s)) - 1" i t t'] dead_kept_trans [of s t t']
      by simp
  qed
qed

lemma reassign_step_dead: "pidx \<noteq> - 1 \<Longrightarrow> reassign_step pidx k t = Inr t' \<Longrightarrow> dead_kept t t'"
proof -
  assume n: "pidx \<noteq> - 1" and a: "reassign_step pidx k t = Inr t'"
  from reassign_step_effect [OF a] show ?thesis
  proof (elim disjE conjE exE)
    fix b w d
    assume "epb t ! k = pidx"
      "t' = t\<lparr>epb := (epb t)[k := b], epv := (epv t)[k := w], epd := (epd t)[k := d]\<rparr>"
    then have "epb t ! k \<noteq> - 1 \<or> b = - 1" "epb t' = (epb t)[k := b]" using n by simp_all
    then show ?thesis by (rule dead_kept_update)
  next
    assume "t' = t"
    then show ?thesis by (simp add: dead_kept_refl)
  qed
qed

lemma reassign_endpoints_dead:
  assumes r: "reassign_endpoints pidx s = Inr s'" and l: "pidx = - 1 \<Longrightarrow> getitem (bpc s) pidx = Inr 1"
  shows "dead_kept s s'"
proof -
  from r obtain c where c: "getitem (bpc s) pidx = Inr c"
    and c': "(if 1 < c then for_each [0..<length (epb s)] (reassign_step pidx) s else Inr s) = Inr s'"
    by (cases "getitem (bpc s) pidx") (simp_all add: reassign_endpoints_def)
  show ?thesis
  proof (cases "1 < c")
    case False
    with c' have "s = s'" by simp
    then show ?thesis by (simp add: dead_kept_refl)
  next
    case True
    with c l have n: "pidx \<noteq> - 1" by auto
    from True c' have run: "for_each [0..<length (epb s)] (reassign_step pidx) s = Inr s'" by simp
    show ?thesis
    proof (rule for_each_invariant [OF run, where P = "dead_kept s"])
      show "dead_kept s s" by (rule dead_kept_refl)
    next
      fix i t t'
      assume "dead_kept s t" "reassign_step pidx i t = Inr t'"
      then show "dead_kept s t'"
        using reassign_step_dead [OF n, of i t t'] dead_kept_trans [of s t t'] by simp
    qed
  qed
qed

lemma append_point_last:
  assumes "append_point p (- 1) gen s = Inr s3"
  shows "getitem (bpc s3) (- 1) = Inr 1"
proof -
  from append_point_effect [OF assms] obtain g k where
    k: "py_index (Suc (length (bpc s))) (- 1) = Some k" and
    s3: "s3 = s\<lparr>bp := bp s @ [p], bpg := g, bpp := bpp s @ [Some (- 1)],
                   bpc := (bpc s @ [0])[k := (bpc s @ [0]) ! k + 1], bpa := bpa s @ [0]\<rparr>"
    by blast
  from k have "k = length (bpc s)" by (auto simp: py_index_def split: if_splits)
  then show ?thesis by (simp add: s3 getitem_def py_index_def)
qed

lemma addBranchPoint_dead:
  assumes "addBranchPoint p pidx gen s = Inr s'"
  shows "dead_kept s s'"
proof -
  from assms obtain s3 s4 s5 where
    a: "append_point p pidx gen s = Inr s3" and
    b: "sweep_endpoints p s3 = Inr s4" and
    c: "reassign_endpoints pidx s4 = Inr s5" and
    d: "count_branch_event pidx s5 = Inr s'"
    by (auto simp: addBranchPoint_def split: sum.splits)
  from append_point_effect [OF a] have "epb s3 = epb s" by auto
  then have 1: "dead_kept s s3" by (rule dead_kept_epb)
  from sweep_endpoints_dead [OF b] have 2: "dead_kept s3 s4" and bpc4: "bpc s4 = bpc s3" by simp_all
  have 3: "dead_kept s4 s5"
  proof (rule reassign_endpoints_dead [OF c])
    assume "pidx = - 1"
    with a append_point_last bpc4 show "getitem (bpc s4) pidx = Inr 1" by simp
  qed
  from count_branch_event_effect [OF d] have "epb s' = epb s5" by auto
  then have 4: "dead_kept s5 s'" by (rule dead_kept_epb)
  from 1 2 3 4 show ?thesis using dead_kept_trans by blast
qed

lemma addEndPoint_dead: "addEndPoint q s = Inr s' \<Longrightarrow> dead_kept s s'"
  by (auto simp: addEndPoint_def dead_kept_def Let_def nth_append split: sum.splits)

lemma shootSupressed_store: "shootSupressed env a s = (b, s') \<Longrightarrow> s' = s\<lparr>rcursor := rcursor s'\<rparr>"
  by (auto simp: shootSupressed_def random_def Let_def split: if_splits)

lemma grow_candidate_effect:
  assumes "grow_candidate env bpi (s, nb, np) = Inr (s', nb', np')"
  shows "s' = s\<lparr>rcursor := rcursor s'\<rparr> \<and>
         ((nb' = nb \<and> np' = np) \<or> (\<exists>q. nb' = nb @ [q] \<and> np' = np @ [bpi]))"
proof -
  from assms obtain a where a: "getitem (bpa s) bpi = Inr a"
    by (cases "getitem (bpa s) bpi") (simp_all add: grow_candidate_def)
  obtain b t where sh: "shootSupressed env (of_int a) s = (b, t)"
    by (cases "shootSupressed env (of_int a) s") auto
  note st = shootSupressed_store [OF sh]
  show ?thesis
  proof (cases b)
    case True
    with assms a sh have "s' = t" "nb' = nb" "np' = np" by (simp_all add: grow_candidate_def)
    with st show ?thesis by simp
  next
    case False
    with assms a sh have "s' = t \<and> (\<exists>q. nb' = nb @ [q] \<and> np' = np @ [bpi])"
      by (auto simp: grow_candidate_def Let_def split: if_splits sum.splits prod.splits)
    with st show ?thesis by simp
  qed
qed

lemma gather_effect:
  assumes "for_each is (grow_candidate env) (s, nb0, np0) = Inr (s1, nb, np)"
  shows "s1 = s\<lparr>rcursor := rcursor s1\<rparr> \<and>
         (\<exists>nb1 np1. nb = nb0 @ nb1 \<and> np = np0 @ np1 \<and> length nb1 = length np1 \<and>
            set np1 \<subseteq> set is \<and> (distinct is \<longrightarrow> distinct np1))"
  using assms
proof (induction "is" arbitrary: s nb0 np0)
  case Nil
  then show ?case by simp
next
  case (Cons i "is")
  from Cons.prems obtain t nbt npt where
    t: "grow_candidate env i (s, nb0, np0) = Inr (t, nbt, npt)"
    and r: "for_each is (grow_candidate env) (t, nbt, npt) = Inr (s1, nb, np)"
    by (cases "grow_candidate env i (s, nb0, np0)") auto
  from grow_candidate_effect [OF t] have
    ts: "t = s\<lparr>rcursor := rcursor t\<rparr>" and
    acc: "(nbt = nb0 \<and> npt = np0) \<or> (\<exists>q. nbt = nb0 @ [q] \<and> npt = np0 @ [i])" by simp_all
  from Cons.IH [OF r] obtain nb1 np1 where
    s1: "s1 = t\<lparr>rcursor := rcursor s1\<rparr>" and
    n: "nb = nbt @ nb1" "np = npt @ np1" "length nb1 = length np1" "set np1 \<subseteq> set is"
       "distinct is \<longrightarrow> distinct np1" by blast
  have "s1 = s\<lparr>rcursor := rcursor s1\<rparr>"
    by (subst s1, subst ts) simp
  moreover from acc have "\<exists>nb1 np1. nb = nb0 @ nb1 \<and> np = np0 @ np1 \<and> length nb1 = length np1 \<and>
            set np1 \<subseteq> set (i # is) \<and> (distinct (i # is) \<longrightarrow> distinct np1)"
  proof
    assume "nbt = nb0 \<and> npt = np0"
    with n show ?thesis by auto
  next
    assume "\<exists>q. nbt = nb0 @ [q] \<and> npt = np0 @ [i]"
    then obtain q where q: "nbt = nb0 @ [q]" "npt = np0 @ [i]" by blast
    have "nb = nb0 @ (q # nb1)" "np = np0 @ (i # np1)" using n q by simp_all
    moreover have "length (q # nb1) = length (i # np1)" using n by simp
    moreover have "set (i # np1) \<subseteq> set (i # is)" using n by auto
    moreover have "distinct (i # is) \<longrightarrow> distinct (i # np1)" using n by auto
    ultimately show ?thesis by blast
  qed
  ultimately show ?case by blast
qed

lemma growBranches_split:
  assumes "growBranches env gen s = Inr s'"
  shows "\<exists>s1 nb np. for_each (set_order env (epb s)) (grow_candidate env) (s, [], []) = Inr (s1, nb, np) \<and>
           s1 = s\<lparr>rcursor := rcursor s1\<rparr> \<and> length nb = length np \<and>
           set np \<subseteq> set (set_order env (epb s)) \<and>
           (distinct (set_order env (epb s)) \<longrightarrow> distinct np) \<and>
           for_each (zip nb np)
             (\<lambda>(newbp, newbpp) t. if exclude t newbp then Inr t else addBranchPoint newbp newbpp gen t)
             s1 = Inr s'"
proof -
  from assms obtain s1 nb np where
    g: "for_each (set_order env (epb s)) (grow_candidate env) (s, [], []) = Inr (s1, nb, np)"
    and c: "for_each (zip nb np)
             (\<lambda>(newbp, newbpp) t. if exclude t newbp then Inr t else addBranchPoint newbp newbpp gen t)
             s1 = Inr s'"
    by (cases "for_each (set_order env (epb s)) (grow_candidate env) (s, [], [])")
       (auto simp: growBranches_def)
  from gather_effect [OF g] g c show ?thesis by auto
qed

lemma growBranches_dead:
  assumes "growBranches env gen s = Inr s'"
  shows "dead_kept s s'"
proof -
  from growBranches_split [OF assms] obtain s1 nb np where
    s1: "s1 = s\<lparr>rcursor := rcursor s1\<rparr>" and
    c: "for_each (zip nb np)
             (\<lambda>(newbp, newbpp) t. if exclude t newbp then Inr t else addBranchPoint newbp newbpp gen t)
             s1 = Inr s'" by blast
  have "epb s1 = epb s" by (subst s1) simp
  then have d1: "dead_kept s s1" by (rule dead_kept_epb)
  show ?thesis
  proof (rule for_each_invariant [OF c, where P = "dead_kept s"])
    show "dead_kept s s1" by (rule d1)
  next
    fix i t t'
    assume a: "dead_kept s t"
      "(case i of (newbp, newbpp) \<Rightarrow> \<lambda>t. if exclude t newbp then Inr t else addBranchPoint newbp newbpp gen t) t = Inr t'"
    obtain q pidx where i: "i = (q, pidx)" by (cases i) auto
    from a(2) i have "t' = t \<or> addBranchPoint q pidx gen t = Inr t'" by (auto split: if_splits)
    then have "dead_kept t t'"
      using addBranchPoint_dead [of q pidx gen t t'] dead_kept_refl [of t] by auto
    with a(1) show "dead_kept s t'" by (rule dead_kept_trans)
  qed
qed

lemma expovariate_store: "expovariate env l s = (dt, s') \<Longrightarrow> s' = s\<lparr>rcursor := rcursor s'\<rparr>"
  by (auto simp: expovariate_def random_def split: prod.splits)

lemma add_arrivals_invariant:
  assumes run: "add_arrivals env rate n ts = Some (Inr ts')" and p: "P (snd ts)"
    and addp: "\<And>t t'. P t \<Longrightarrow> add_sampled_endpoint env t = Inr t' \<Longrightarrow> P t'"
    and curs: "\<And>t c. P t \<Longrightarrow> P (t\<lparr>rcursor := c\<rparr>)"
  shows "P (snd ts')"
proof -
  have "add_arrivals e rate n ts = Some y \<Longrightarrow> e = env \<Longrightarrow> P (snd ts) \<Longrightarrow> y = Inr ts' \<Longrightarrow> P (snd ts')"
    for e y
  proof (induction rule: add_arrivals.raw_induct [rotated 1, consumes 1])
    case (1 rec e rate n ts y)
    note e = \<open>e = env\<close> and p = \<open>P (snd ts)\<close> and y = \<open>y = Inr ts'\<close>
    show ?case
    proof (cases "fst ts < n")
      case False
      with 1(2) y have "ts' = ts" by simp
      with p show ?thesis by simp
    next
      case True
      with 1(2) y obtain s1 where s1: "add_sampled_endpoint env (snd ts) = Inr s1"
        unfolding e by (cases "add_sampled_endpoint env (snd ts)") auto
      obtain dt s2 where ex: "expovariate env rate s1 = (dt, s2)"
        by (cases "expovariate env rate s1") auto
      from True 1(2) s1 ex have r: "rec env rate n (fst ts + dt, s2) = Some y"
        unfolding e by simp
      have "P s1" using addp [OF p s1] .
      then have "P s2" using curs [of s1 "rcursor s2"] expovariate_store [OF ex] by simp
      then show ?thesis using 1(1) [OF r refl _ y] by simp
    qed
  qed
  from this [OF run refl p refl] show ?thesis .
qed

lemma reduce_apical_control_store:
  "\<exists>a b. reduce_apical_control s = s\<lparr>apicaltiming := a, apicalcontrol := b\<rparr>"
proof (cases "apicaltiming s > 0")
  case True
  then show ?thesis by (auto simp: reduce_apical_control_def Let_def)
next
  case False
  then have "reduce_apical_control s = s\<lparr>apicaltiming := apicaltiming s, apicalcontrol := apicalcontrol s\<rparr>"
    by (simp add: reduce_apical_control_def)
  then show ?thesis by blast
qed

lemma generations_invariant:
  assumes run: "generations env rate maxtime is (t, n, s) = Some (Inr s')" and p: "P s"
    and grow: "\<And>g t t'. P t \<Longrightarrow> growBranches env g t = Inr t' \<Longrightarrow> P t'"
    and addp: "\<And>t t'. P t \<Longrightarrow> add_sampled_endpoint env t = Inr t' \<Longrightarrow> P t'"
    and curs: "\<And>t c. P t \<Longrightarrow> P (t\<lparr>rcursor := c\<rparr>)"
    and apic: "\<And>t a b. P t \<Longrightarrow> P (t\<lparr>apicaltiming := a, apicalcontrol := b\<rparr>)"
  shows "P s'"
  using run p
proof (induction "is" arbitrary: t n s)
  case Nil
  then show ?case by simp
next
  case (Cons i "is")
  from Cons.prems(1) obtain s1 where s1: "growBranches env (int i) s = Inr s1"
    by (cases "growBranches env (int i) s") auto
  have p1: "P s1" using grow [OF Cons.prems(2) s1] .
  have red: "P (reduce_apical_control u)" if "P u" for u
    using reduce_apical_control_store [of u] apic [OF that] by auto
  show ?case
  proof (cases "maxtime > 0 \<and> out_of_time env maxtime i")
    case True
    with Cons.prems(1) s1 have "s' = s1" by simp
    with p1 show ?thesis by simp
  next
    case False
    show ?thesis
    proof (cases "rate > 0")
      case r: True
      from Cons.prems(1) s1 False r obtain t' s2 where
        a: "add_arrivals env rate (n + 1) (t, s1) = Some (Inr (t', s2))" and
        g: "generations env rate maxtime is (t', n + 1, reduce_apical_control s2) = Some (Inr s')"
        by (auto split: option.splits sum.splits)
      have "P (snd (t', s2))"
      proof (rule add_arrivals_invariant [OF a, where P = P])
        show "P (snd (t, s1))" using p1 by simp
      next
        fix u u' assume "P u" "add_sampled_endpoint env u = Inr u'"
        then show "P u'" by (rule addp)
      next
        fix u c assume "P u"
        then show "P (u\<lparr>rcursor := c\<rparr>)" by (rule curs)
      qed
      then show ?thesis using Cons.IH [OF g] red by simp
    next
      case r: False
      from Cons.prems(1) s1 False r have
        g: "generations env rate maxtime is (t, n, reduce_apical_control s1) = Some (Inr s')"
        by auto
      show ?thesis using Cons.IH [OF g] red p1 by simp
    qed
  qed
qed

lemma materialize_store:
  "materialize cnt s = Inr (cnt', s') \<Longrightarrow> \<exists>bs. s' = s\<lparr>branchpoints := bs, endpoints := ep s\<rparr>"
  by (auto simp: materialize_def split: sum.splits prod.splits)

lemma iterate_invariant:
  assumes run: "iterate env r m (cnt, s) = Some (Inr (cnt', s'))" and p: "P s"
    and grow: "\<And>g t t'. P t \<Longrightarrow> growBranches env g t = Inr t' \<Longrightarrow> P t'"
    and addp: "\<And>t t'. P t \<Longrightarrow> add_sampled_endpoint env t = Inr t' \<Longrightarrow> P t'"
    and curs: "\<And>t c. P t \<Longrightarrow> P (t\<lparr>rcursor := c\<rparr>)"
    and apic: "\<And>t a b. P t \<Longrightarrow> P (t\<lparr>apicaltiming := a, apicalcontrol := b\<rparr>)"
    and outp: "\<And>t bs es. P t \<Longrightarrow> P (t\<lparr>branchpoints := bs, endpoints := es\<rparr>)"
  shows "P s'"
proof -
  define ts where "ts = (if r / 1000 > 0 then expovariate env (r / 1000) s else (1, s))"
  have s0: "snd ts = s\<lparr>rcursor := rcursor (snd ts)\<rparr>"
  proof (cases "r / 1000 > 0")
    case True
    then have "expovariate env (r / 1000) s = (fst ts, snd ts)" by (simp add: ts_def)
    then show ?thesis by (rule expovariate_store)
  next
    case False
    then show ?thesis by (simp add: ts_def)
  qed
  have p0: "P (snd ts)" using curs [OF p, of "rcursor (snd ts)"] s0 by simp
  have "iterate env r m (cnt, s) =
      (case generations env (r / 1000) m [0..<nat (maxiterations (snd ts))] (fst ts, 0, snd ts) of
            None \<Rightarrow> None
          | Some (Inl e) \<Rightarrow> Some (Inl e)
          | Some (Inr s) \<Rightarrow> Some (materialize cnt s))"
    unfolding iterate_def Let_def ts_def by (simp cong: option.case_cong sum.case_cong)
  with run obtain s1 where
    g: "generations env (r / 1000) m [0..<nat (maxiterations (snd ts))] (fst ts, 0, snd ts) = Some (Inr s1)" and
    mt: "materialize cnt s1 = Inr (cnt', s')"
    by (auto split: option.splits sum.splits)
  have "P s1" by (rule generations_invariant [OF g p0 grow addp curs apic])
  with materialize_store [OF mt] outp show ?thesis by auto
qed

lemma sqrt9: "sqrt 9 = 3"
  using real_sqrt_abs [of 3] by simp

lemma upt3: "[0..<3] = [0, 1, 2]"
  by (simp add: upt_rec)

lemma plain_order_crowded: "set_order plain_runtime (epb crowded_store) = [0]"
  by (simp add: plain_runtime_def crowded_store_def)

lemma crowded_candidates:
  "for_each [0] (grow_candidate plain_runtime) (crowded_store, [], []) =
     Inr (crowded_store, [(1, 0, 0)], [0])"
  by (simp add: grow_candidate_def shootSupressed_def direction_def getitem_def py_index_def
        crowded_store_def initial_store_def default_config_def upt2 Let_def)

lemma crowded_commit:
  "addBranchPoint (1, 0, 0) 0 0 crowded_store = Inr grown_store"
  by (simp add: addBranchPoint_def append_point_def sweep_endpoints_def reassign_endpoints_def
        count_branch_event_def sweep_step_def reassign_step_def closestBranchPoint_def closest_def
        crowded_store_def initial_store_def default_config_def getitem_def setitem_def py_index_def
        Let_def upt2 sqrt9 grown_store_def)

lemma crowded_grow: "growBranches plain_runtime 0 crowded_store = Inr grown_store"
proof -
  have x: "\<not> exclude crowded_store (1, 0, 0)"
    by (simp add: crowded_store_def initial_store_def default_config_def)
  have "growBranches plain_runtime 0 crowded_store =
          for_each (zip [(1, 0, 0)] [0])
            (\<lambda>(newbp, newbpp) t. if exclude t newbp then Inr t else addBranchPoint newbp newbpp 0 t)
            crowded_store"
    by (simp only: growBranches_def plain_order_crowded crowded_candidates sum.case prod.case)
  then show ?thesis by (simp add: x crowded_commit)
qed

lemma grown_materialize:
  "materialize cnt grown_store =
     Inr (cnt + 3, grown_store\<lparr>branchpoints := map (\<lambda>b. b\<lparr>b_index := b_index b + cnt\<rparr>) grown_tree,
                                endpoints := [(4, 0, 0), (0, 0, - 1)]\<rparr>)"
  by (simp add: materialize_def materialize_step_def register_child_def
        new_Branchpoint_def getitem_def py_index_def upt3 grown_store_def grown_tree_def
        crowded_store_def)

lemma crowded_iterate:
  "iterate plain_runtime 0 0 (cnt, crowded_store) =
     Some (Inr (cnt + 3, grown_store\<lparr>branchpoints := map (\<lambda>b. b\<lparr>b_index := b_index b + cnt\<rparr>) grown_tree,
                                endpoints := [(4, 0, 0), (0, 0, - 1)]\<rparr>))"
proof -
  have m: "maxiterations crowded_store = 1" by (simp add: crowded_store_def)
  have a: "apicaltiming grown_store = 0"
    by (simp add: grown_store_def crowded_store_def initial_store_def default_config_def)
  have o: "\<not> out_of_time plain_runtime 0 0" by (simp add: plain_runtime_def)
  show ?thesis
    by (simp add: iterate_def m crowded_grow reduce_apical_control_def a grown_materialize)
qed

lemma add_sampled_endpoint_dead: "add_sampled_endpoint env s = Inr s' \<Longrightarrow> dead_kept s s'"
proof -
  assume a: "add_sampled_endpoint env s = Inr s'"
  then obtain q r where "addEndPoint q (s\<lparr>volumepoint := Suc (volumepoint s), rcursor := r\<rparr>) = Inr s'"
    by (auto simp: add_sampled_endpoint_def split: option.splits)
  from addEndPoint_dead [OF this] show ?thesis by (simp add: dead_kept_def)
qed

lemma iterate_dead:
  assumes "iterate env r m (cnt, s) = Some (Inr (cnt', s'))"
  shows "dead_kept s s'"
proof (rule iterate_invariant [OF assms, where P = "dead_kept s"])
  show "dead_kept s s" by (rule dead_kept_refl)
next
  fix g t t' assume "dead_kept s t" "growBranches env g t = Inr t'"
  then show "dead_kept s t'" using growBranches_dead dead_kept_trans by blast
next
  fix t t' assume "dead_kept s t" "add_sampled_endpoint env t = Inr t'"
  then show "dead_kept s t'" using add_sampled_endpoint_dead dead_kept_trans by blast
next
  fix t c assume "dead_kept s t"
  then show "dead_kept s (t\<lparr>rcursor := c\<rparr>)" by (simp add: dead_kept_def)
next
  fix t a b assume "dead_kept s t"
  then show "dead_kept s (t\<lparr>apicaltiming := a, apicalcontrol := b\<rparr>)" by (simp add: dead_kept_def)
next
  fix t bs es assume "dead_kept s t"
  then show "dead_kept s (t\<lparr>branchpoints := bs, endpoints := es\<rparr>)" by (simp add: dead_kept_def)
qed

lemma crowded_addEndPoint:
  "addEndPoint (0, 3, 5) crowded_store =
     Inr (crowded_store\<lparr>ep := [(4, 0, 0), (0, 0, - 1), (0, 3, 5)], epb := [0, - 1, 1],
            epv := [(1, 0, 0), (0, 0, - 1), (0, 0, 1)], epd := [4, 1, 5]\<rparr>)"
  by (simp add: addEndPoint_def closestBranchPoint_def closest_def crowded_store_def
        initial_store_def default_config_def Let_def upt2 sqrt25)

text \<open>
  Claim C6. An endpoint whose association is \<open>-1\<close> (dead) keeps that association through
  every call of \<open>addBranchPoint\<close> (whatever the parent index), \<open>addEndPoint\<close>,
  \<open>growBranches\<close> and \<open>iterate\<close> that completes.
\<close>

theorem dead_is_permanent:
  assumes "i < length (epb s)" and "epb s ! i = - 1"
  shows "(addBranchPoint p pidx gen s = Inr s' \<longrightarrow> i < length (epb s') \<and> epb s' ! i = - 1) \<and>
         (addEndPoint q s = Inr s' \<longrightarrow> i < length (epb s') \<and> epb s' ! i = - 1) \<and>
         (growBranches env gen s = Inr s' \<longrightarrow> i < length (epb s') \<and> epb s' ! i = - 1) \<and>
         (iterate env r m (cnt, s) = Some (Inr (cnt', s')) \<longrightarrow> i < length (epb s') \<and> epb s' ! i = - 1)"
proof -
  have "i < length (epb s') \<and> epb s' ! i = - 1" if "dead_kept s s'"
    using that assms by (auto simp: dead_kept_def)
  then show ?thesis
    using addBranchPoint_dead [of p pidx gen s s'] addEndPoint_dead [of q s s']
      growBranches_dead [of env gen s s'] iterate_dead [of env r m cnt s cnt' s']
    by blast
qed

theorem dead_is_permanent_witness:
  "epb crowded_store ! 1 = - 1 \<and>
   (\<exists>s'. addBranchPoint (0, 0, - 3) 0 1 crowded_store = Inr s' \<and> epb s' ! 1 = - 1) \<and>
   (\<exists>s'. addEndPoint (0, 3, 5) crowded_store = Inr s' \<and> epb s' ! 1 = - 1) \<and>
   (\<exists>s'. growBranches plain_runtime 0 crowded_store = Inr s' \<and> epb s' ! 1 = - 1) \<and>
   (\<exists>c' s'. iterate plain_runtime 0 0 (0, crowded_store) = Some (Inr (c', s')) \<and> epb s' ! 1 = - 1)"
proof -
  have l: "1 < length (epb crowded_store)" and d: "epb crowded_store ! 1 = - 1"
    by (simp_all add: crowded_store_def)
  note t = dead_is_permanent [OF l d]
  have "\<exists>s'. addBranchPoint (0, 0, - 3) 0 1 crowded_store = Inr s' \<and> epb s' ! 1 = - 1"
    using t [where p = "(0, 0, - 3)" and pidx = 0 and gen = 1] crowded_run by blast
  moreover have "\<exists>s'. addEndPoint (0, 3, 5) crowded_store = Inr s' \<and> epb s' ! 1 = - 1"
    using t [where q = "(0, 3, 5)"] crowded_addEndPoint by blast
  moreover have "\<exists>s'. growBranches plain_runtime 0 crowded_store = Inr s' \<and> epb s' ! 1 = - 1"
    using t [where env = plain_runtime and gen = 0] crowded_grow by blast
  moreover have "\<exists>c' s'. iterate plain_runtime 0 0 (0, crowded_store) = Some (Inr (c', s')) \<and> epb s' ! 1 = - 1"
    using t [where env = plain_runtime and r = 0 and m = 0 and cnt = 0] crowded_iterate [of 0] by blast
  ultimately show ?thesis using d by blast
qed

subsection \<open>At most two children\<close>

lemma closestBranchPoint_growable_or_sentinel:
  "closestBranchPoint s q = Inr (b, w, d) \<Longrightarrow> growable_or_sentinel s b"
proof -
  assume a: "closestBranchPoint s q = Inr (b, w, d)"
  then obtain d2 bbi bv where c: "closest (bp s) (bpc s) (length (bp s)) (fst q) (fst (snd q)) (snd (snd q)) = Inr (d2, bbi, bv)"
    and b: "b = (if sqrt d2 < influence s then int bbi else - 2)"
    by (auto simp: closestBranchPoint_def Let_def split: sum.splits prod.splits if_splits)
  from c have l: "closest_loop (bp s) (bpc s) (fst q, fst (snd q), snd (snd q)) [0..<length (bp s)] (10 ^ 30, None) = Inr (d2, Some (bbi, bv))"
    by (auto simp: closest_def split: sum.splits prod.splits option.splits)
  have "bbi < length (bpc s) \<and> bpc s ! bbi \<le> 1"
    using closest_loop_sound [OF l] by auto
  with b show ?thesis by (auto simp: growable_or_sentinel_def)
qed

lemma addEndPoint_inv:
  assumes inv: "store_inv s" and run: "addEndPoint q s = Inr s'"
  shows "store_inv s'"
proof -
  from run obtain b w d where c: "closestBranchPoint (s\<lparr>ep := ep s @ [q]\<rparr>) q = Inr (b, w, d)"
    and s': "s' = s\<lparr>ep := ep s @ [q], epb := epb s @ [b], epv := epv s @ [w], epd := epd s @ [d]\<rparr>"
    by (auto simp: addEndPoint_def Let_def split: sum.splits)
  have "growable_or_sentinel (s\<lparr>ep := ep s @ [q]\<rparr>) b"
    by (rule closestBranchPoint_growable_or_sentinel [OF c])
  then have g: "growable_or_sentinel s b" by (simp add: growable_or_sentinel_def)
  have gs: "\<And>x. growable_or_sentinel s' x = growable_or_sentinel s x"
    by (simp add: s' growable_or_sentinel_def)
  have "\<forall>i<length (epb s'). growable_or_sentinel s' (epb s' ! i)"
  proof (intro allI impI)
    fix i assume "i < length (epb s')"
    then have "i < length (epb s) \<or> i = length (epb s)" by (auto simp: s')
    moreover have "growable_or_sentinel s (epb s ! i)" if "i < length (epb s)"
      using inv that by (simp add: store_inv_def)
    ultimately have "growable_or_sentinel s (epb s' ! i)"
      using g by (auto simp: s' nth_append)
    then show "growable_or_sentinel s' (epb s' ! i)" by (simp only: gs)
  qed
  moreover have "aligned s'" "length (bpc s') = length (bp s')" "\<forall>j<length (bpc s'). bpc s' ! j \<le> 2"
    using inv by (simp_all add: store_inv_def aligned_def s')
  ultimately show ?thesis by (simp add: store_inv_def)
qed

lemma store_inv_cong:
  "store_inv s \<Longrightarrow> bp t = bp s \<Longrightarrow> bpc t = bpc s \<Longrightarrow> ep t = ep s \<Longrightarrow> epb t = epb s \<Longrightarrow>
   epv t = epv s \<Longrightarrow> epd t = epd s \<Longrightarrow> store_inv t"
  unfolding store_inv_def aligned_def growable_or_sentinel_def by metis

lemma add_sampled_endpoint_inv:
  assumes inv: "store_inv s" and run: "add_sampled_endpoint env s = Inr s'"
  shows "store_inv s'"
proof -
  from run obtain q r where a: "addEndPoint q (s\<lparr>volumepoint := Suc (volumepoint s), rcursor := r\<rparr>) = Inr s'"
    by (auto simp: add_sampled_endpoint_def split: option.splits)
  have "store_inv (s\<lparr>volumepoint := Suc (volumepoint s), rcursor := r\<rparr>)"
    by (rule store_inv_cong [OF inv]) simp_all
  then show ?thesis using a by (rule addEndPoint_inv)
qed

lemma initial_store_inv: "store_inv (initial_store c)"
  by (simp add: store_inv_def aligned_def initial_store_def)

lemma SCA_init_inv:
  assumes "SCA_init env c = Inr s" and "arg_startingpoints c = []"
  shows "store_inv s"
proof -
  from assms have run: "for_each [0..<nat (arg_NENDPOINTS c)] (\<lambda>i. add_sampled_endpoint env) (initial_store c) = Inr s"
    by (auto simp: SCA_init_def split: sum.splits)
  show ?thesis
  proof (rule for_each_invariant [OF run, where P = store_inv])
    show "store_inv (initial_store c)" by (rule initial_store_inv)
  next
    fix i t t' assume "store_inv t" "add_sampled_endpoint env t = Inr t'"
    then show "store_inv t'" by (rule add_sampled_endpoint_inv)
  qed
qed

lemma retarget_assoc:
  "fst (retarget p bi s i) = bi \<or> fst (retarget p bi s i) = - 2 \<or> fst (retarget p bi s i) = - 1
   \<or> fst (retarget p bi s i) = epb s ! i"
  by (simp add: retarget_def endpoint_def Let_def)

lemma addBranchPoint_inv:
  assumes inv: "store_inv s" and par: "0 \<le> pidx" "nat pidx < length (bpc s)" "bpc s ! nat pidx \<le> 1"
    and run: "addBranchPoint p pidx gen s = Inr s'"
  shows "store_inv s' \<and> length (bpc s') = Suc (length (bpc s)) \<and>
         (\<forall>j<length (bpc s). j \<noteq> nat pidx \<longrightarrow> bpc s' ! j = bpc s ! j)"
proof -
  let ?n = "length (bpc s)"
  let ?k = "nat pidx"
  from inv have al: "aligned s" and len: "length (bpc s) = length (bp s)"
    and old: "\<And>i. i < length (epb s) \<Longrightarrow> growable_or_sentinel s (epb s ! i)"
    and two: "\<And>j. j < length (bpc s) \<Longrightarrow> bpc s ! j \<le> 2"
    by (simp_all add: store_inv_def)
  from addBranchPoint_effect [OF run al] obtain s3 s4 s5 c bs where
    a: "append_point p pidx gen s = Inr s3" and
    sb34: "same_but_endpoints s3 s4" and sb45: "same_but_endpoints s4 s5" and
    sw: "\<forall>i<length (ep s). endpoint s4 i = retarget p (int (length (bp s))) s i" and
    c: "getitem (bpc s3) pidx = Inr c" and
    re: "\<forall>i<length (ep s).
              if 1 < c \<and> epb s4 ! i = pidx then closestBranchPoint s3 (ep s ! i) = Inr (endpoint s5 i)
              else endpoint s5 i = endpoint s4 i" and
    s': "s' = s5\<lparr>bpa := bs\<rparr>"
    by blast
  from append_point_effect [OF a] obtain g k where
    k: "py_index (Suc (length (bpc s))) pidx = Some k" and
    s3: "s3 = s\<lparr>bp := bp s @ [p], bpg := g, bpp := bpp s @ [Some pidx],
                   bpc := (bpc s @ [0])[k := (bpc s @ [0]) ! k + 1], bpa := bpa s @ [0]\<rparr>"
    by blast
  from k par(1) have kk: "k = ?k" by (auto simp: py_index_def split: if_splits)
  have bpc3: "bpc s3 = (bpc s @ [0])[?k := bpc s ! ?k + 1]"
    using par(2) by (simp add: s3 kk nth_append)
  have l3: "length (bpc s3) = Suc ?n" by (simp add: bpc3)
  have n3: "bpc s3 ! ?n = 0" using par(2) by (simp add: bpc3)
  have o3: "\<And>j. j < ?n \<Longrightarrow> j \<noteq> ?k \<Longrightarrow> bpc s3 ! j = bpc s ! j"
    by (simp add: bpc3 nth_append)
  have k3: "bpc s3 ! ?k = bpc s ! ?k + 1" using par(2) by (simp add: bpc3 nth_append)
  have cv: "c = bpc s3 ! ?k"
    using c par(1) by (auto simp: getitem_def py_index_def split: option.splits if_splits)
  note f4 = same_but_endpoints_fields [OF sb34]
  note f5 = same_but_endpoints_fields [OF sb45]
  have bpc': "bpc s' = bpc s3" by (simp add: s' f4 f5)
  have bp': "bp s' = bp s @ [p]" by (simp add: s' f4 f5 s3)
  have ep': "ep s' = ep s" by (simp add: s' f4 f5 s3)
  have e3: "length (epb s3) = length (epb s)" "length (epv s3) = length (epv s)"
    "length (epd s3) = length (epd s)" "ep s3 = ep s" by (simp_all add: s3)
  have al': "aligned s'" using al by (simp add: aligned_def s' f4 f5 e3 ep')
  have lb: "length (epb s') = length (ep s)" using al by (simp add: aligned_def s' f4 f5 e3)
  have g3: "growable_or_sentinel s3 b" if "growable_or_sentinel s b" "b = pidx \<longrightarrow> c \<le> 1" for b
  proof (cases "b = - 1 \<or> b = - 2")
    case True
    then show ?thesis by (auto simp: growable_or_sentinel_def)
  next
    case False
    with that(1) have b: "0 \<le> b" "nat b < ?n" "bpc s ! nat b \<le> 1"
      by (auto simp: growable_or_sentinel_def)
    show ?thesis
    proof (cases "nat b = ?k")
      case True
      with b(1) par(1) have "b = pidx" by simp
      with that(2) cv True b show ?thesis by (simp add: growable_or_sentinel_def l3)
    next
      case False
      with b o3 [of "nat b"] show ?thesis by (simp add: growable_or_sentinel_def l3)
    qed
  qed
  have gnew: "growable_or_sentinel s3 (int (length (bp s)))"
    using n3 len by (simp add: growable_or_sentinel_def l3)
  have main: "growable_or_sentinel s3 (epb s5 ! i)" if i: "i < length (ep s)" for i
  proof (cases "1 < c \<and> epb s4 ! i = pidx")
    case True
    with re i have "closestBranchPoint s3 (ep s ! i) = Inr (endpoint s5 i)" by simp
    then have "closestBranchPoint s3 (ep s ! i) = Inr (epb s5 ! i, epv s5 ! i, epd s5 ! i)"
      by (simp add: endpoint_def)
    then show ?thesis by (rule closestBranchPoint_growable_or_sentinel)
  next
    case False
    with re i have "endpoint s5 i = endpoint s4 i" by simp
    then have e54: "epb s5 ! i = epb s4 ! i" by (simp add: endpoint_def)
    from sw i have "endpoint s4 i = retarget p (int (length (bp s))) s i" by simp
    then have "fst (endpoint s4 i) = fst (retarget p (int (length (bp s))) s i)" by simp
    then have e4: "epb s4 ! i = fst (retarget p (int (length (bp s))) s i)" by (simp add: endpoint_def)
    from retarget_assoc [of p "int (length (bp s))" s i]
    consider "epb s4 ! i = int (length (bp s))" | "epb s4 ! i = - 2" | "epb s4 ! i = - 1"
      | "epb s4 ! i = epb s ! i" unfolding e4 by blast
    then show ?thesis
    proof cases
      case 1
      with gnew e54 show ?thesis by simp
    next
      case 2
      with e54 show ?thesis by (simp add: growable_or_sentinel_def)
    next
      case 3
      with e54 show ?thesis by (simp add: growable_or_sentinel_def)
    next
      case 4
      have "i < length (epb s)" using i al by (simp add: aligned_def)
      then have "growable_or_sentinel s (epb s ! i)" by (rule old)
      moreover have "epb s ! i = pidx \<longrightarrow> c \<le> 1" using False 4 by auto
      ultimately have "growable_or_sentinel s3 (epb s ! i)" by (rule g3)
      with 4 e54 show ?thesis by simp
    qed
  qed
  have gs': "\<And>b. growable_or_sentinel s' b = growable_or_sentinel s3 b"
    by (simp add: growable_or_sentinel_def bpc')
  have eb': "epb s' = epb s5" by (simp add: s')
  have "\<forall>i<length (epb s'). growable_or_sentinel s' (epb s' ! i)"
    using main lb by (simp add: gs' eb')
  moreover have "\<forall>j<length (bpc s'). bpc s' ! j \<le> 2"
  proof (intro allI impI)
    fix j assume "j < length (bpc s')"
    then have "j < Suc ?n" by (simp add: bpc' l3)
    then consider "j = ?n" | "j = ?k" | "j < ?n" "j \<noteq> ?k" by linarith
    then show "bpc s' ! j \<le> 2"
    proof cases
      case 1 then show ?thesis using n3 by (simp add: bpc')
    next
      case 2 then show ?thesis using k3 par(3) by (simp add: bpc')
    next
      case 3 then show ?thesis using o3 [of j] two [of j] by (simp add: bpc')
    qed
  qed
  moreover have "length (bpc s') = length (bp s')" using len by (simp add: bpc' l3 bp')
  ultimately have "store_inv s'" using al' by (simp add: store_inv_def)
  moreover have "length (bpc s') = Suc ?n" by (simp add: bpc' l3)
  moreover have "\<forall>j<?n. j \<noteq> ?k \<longrightarrow> bpc s' ! j = bpc s ! j" using o3 by (simp add: bpc')
  ultimately show ?thesis by blast
qed

lemma commit_loop_inv:
  assumes "for_each cands
             (\<lambda>(newbp, newbpp) t. if exclude t newbp then Inr t else addBranchPoint newbp newbpp gen t)
             t = Inr t'"
    and "store_inv t" and "distinct (map snd cands)"
    and "\<forall>c\<in>set cands. 0 \<le> snd c \<and> nat (snd c) < length (bpc t) \<and> bpc t ! nat (snd c) \<le> 1"
  shows "store_inv t'"
  using assms
proof (induction cands arbitrary: t)
  case Nil
  then show ?case by simp
next
  case (Cons c cands)
  obtain q pidx where c: "c = (q, pidx)" by (cases c) auto
  from Cons.prems(1) obtain t1 where
    st: "(if exclude t q then Inr t else addBranchPoint q pidx gen t) = Inr t1" and
    rest: "for_each cands
             (\<lambda>(newbp, newbpp) t. if exclude t newbp then Inr t else addBranchPoint newbp newbpp gen t)
             t1 = Inr t'"
    by (auto simp: c split: sum.splits)
  from Cons.prems(4) have par: "0 \<le> pidx" "nat pidx < length (bpc t)" "bpc t ! nat pidx \<le> 1"
    by (simp_all add: c)
  have d: "distinct (map snd cands)" and notin: "pidx \<notin> snd ` set cands"
    using Cons.prems(3) by (simp_all add: c)
  have "store_inv t1 \<and>
        (\<forall>c\<in>set cands. 0 \<le> snd c \<and> nat (snd c) < length (bpc t1) \<and> bpc t1 ! nat (snd c) \<le> 1)"
  proof (cases "exclude t q")
    case True
    with st have "t1 = t" by simp
    with Cons.prems(2,4) show ?thesis by simp
  next
    case False
    with st have run: "addBranchPoint q pidx gen t = Inr t1" by simp
    from addBranchPoint_inv [OF Cons.prems(2) par run] have
      i1: "store_inv t1" and l1: "length (bpc t1) = Suc (length (bpc t))" and
      o1: "\<forall>j<length (bpc t). j \<noteq> nat pidx \<longrightarrow> bpc t1 ! j = bpc t ! j" by simp_all
    have "0 \<le> snd x \<and> nat (snd x) < length (bpc t1) \<and> bpc t1 ! nat (snd x) \<le> 1"
      if x: "x \<in> set cands" for x
    proof -
      from Cons.prems(4) x have px: "0 \<le> snd x" "nat (snd x) < length (bpc t)" "bpc t ! nat (snd x) \<le> 1"
        by simp_all
      from notin x have "snd x \<noteq> pidx" by auto
      with px(1) par(1) have "nat (snd x) \<noteq> nat pidx" by simp
      with o1 px show ?thesis by (simp add: l1)
    qed
    with i1 show ?thesis by blast
  qed
  then show ?case using Cons.IH [OF rest _ d] by blast
qed

lemma growBranches_inv:
  assumes en: "enumerates_sets env" and inv: "store_inv s" and run: "growBranches env gen s = Inr s'"
  shows "store_inv s'"
proof -
  from growBranches_split [OF run] obtain s1 nb np where
    s1: "s1 = s\<lparr>rcursor := rcursor s1\<rparr>" and ln: "length nb = length np" and
    sub: "set np \<subseteq> set (set_order env (epb s))" and
    dis: "distinct (set_order env (epb s)) \<longrightarrow> distinct np" and
    c: "for_each (zip nb np)
             (\<lambda>(newbp, newbpp) t. if exclude t newbp then Inr t else addBranchPoint newbp newbpp gen t)
             s1 = Inr s'" by blast
  from en have o: "distinct (set_order env (epb s))" "set (set_order env (epb s)) = set (epb s) - {- 1, - 2}"
    by (simp_all add: enumerates_sets_def)
  have i1: "store_inv s1"
    by (rule store_inv_cong [OF inv]) (subst s1, simp)+
  have m: "map snd (zip nb np) = np" using ln by simp
  have d: "distinct (map snd (zip nb np))" using dis o(1) by (simp only: m)
  have b1: "bpc s1 = bpc s" by (subst s1) simp
  have "0 \<le> snd x \<and> nat (snd x) < length (bpc s1) \<and> bpc s1 ! nat (snd x) \<le> 1"
    if x: "x \<in> set (zip nb np)" for x
  proof -
    from x have "(fst x, snd x) \<in> set (zip nb np)" by simp
    then have "snd x \<in> set np" by (rule set_zip_rightD)
    with sub o(2) have e: "snd x \<in> set (epb s)" "snd x \<noteq> - 1" "snd x \<noteq> - 2" by auto
    from e(1) obtain i where "i < length (epb s)" "epb s ! i = snd x" by (auto simp: in_set_conv_nth)
    with inv have "growable_or_sentinel s (snd x)" by (auto simp: store_inv_def)
    with e(2,3) show ?thesis by (simp add: growable_or_sentinel_def b1)
  qed
  then have "\<forall>x\<in>set (zip nb np). 0 \<le> snd x \<and> nat (snd x) < length (bpc s1) \<and> bpc s1 ! nat (snd x) \<le> 1"
    by blast
  from commit_loop_inv [OF c i1 d this] show ?thesis .
qed

lemma iterate_inv:
  assumes en: "enumerates_sets env" and inv: "store_inv s"
    and run: "iterate env r m (cnt, s) = Some (Inr (cnt', s'))"
  shows "store_inv s'"
proof (rule iterate_invariant [OF run, where P = store_inv])
  show "store_inv s" by (rule inv)
next
  fix g t t' assume "store_inv t" "growBranches env g t = Inr t'"
  then show "store_inv t'" by (rule growBranches_inv [OF en])
next
  fix t t' assume "store_inv t" "add_sampled_endpoint env t = Inr t'"
  then show "store_inv t'" by (rule add_sampled_endpoint_inv)
next
  fix t c assume "store_inv t"
  then show "store_inv (t\<lparr>rcursor := c\<rparr>)" by (rule store_inv_cong) simp_all
next
  fix t a b assume "store_inv t"
  then show "store_inv (t\<lparr>apicaltiming := a, apicalcontrol := b\<rparr>)" by (rule store_inv_cong) simp_all
next
  fix t bs es assume "store_inv t"
  then show "store_inv (t\<lparr>branchpoints := bs, endpoints := es\<rparr>)" by (rule store_inv_cong) simp_all
qed

lemma reachable_inv:
  assumes en: "enumerates_sets env" and r: "reachable env s"
  shows "store_inv s"
  using r
proof (induction rule: reachable.induct)
  case (construct c s)
  then show ?case by (simp add: SCA_init_inv)
next
  case (grow s gen s')
  then show ?case using growBranches_inv [OF en] by blast
next
  case (add_endpoint s q s')
  then show ?case using addEndPoint_inv by blast
next
  case (run s r m cnt cnt' s')
  then show ?case using iterate_inv [OF en] by blast
qed

subsection \<open>A run on a line\<close>

lemma sqrt16: "sqrt 16 = 4"
  using real_sqrt_abs [of 4] by simp

lemma sqrt36: "sqrt 36 = 6"
  using real_sqrt_abs [of 6] by simp

lemmas line_defs = line_a_def line_b_def line_c_def line_c1_def line_d_def line_config_def
  initial_store_def default_config_def

lemmas addBranchPoint_defs = addBranchPoint_def append_point_def sweep_endpoints_def
  reassign_endpoints_def count_branch_event_def sweep_step_def reassign_step_def
  closestBranchPoint_def closest_def getitem_def setitem_def py_index_def Let_def

lemma line_init: "SCA_init plain_runtime line_config = Inr line_a"
  by (simp add: SCA_init_def add_sampled_endpoint_def addEndPoint_def closestBranchPoint_def
        closest_def plain_runtime_def line_defs Let_def sqrt16)

lemma plain_order: "set_order plain_runtime xs = sort (remdups (filter (\<lambda>b. b \<noteq> - 1 \<and> b \<noteq> - 2) xs))"
  by (simp add: plain_runtime_def)

lemma line_a_candidates:
  "for_each (set_order plain_runtime (epb line_a)) (grow_candidate plain_runtime) (line_a, [], []) =
     Inr (line_a, [(1, 0, 0)], [0])"
  by (simp add: plain_order grow_candidate_def shootSupressed_def direction_def getitem_def
        py_index_def line_defs Let_def)

lemma line_a_commit: "addBranchPoint (1, 0, 0) 0 0 line_a = Inr line_b"
  by (simp add: addBranchPoint_defs line_defs sqrt9)

lemma line_a_grow: "growBranches plain_runtime 0 line_a = Inr line_b"
proof -
  have x: "\<And>q. \<not> exclude line_a q" by (simp add: line_defs)
  have "growBranches plain_runtime 0 line_a =
          for_each (zip [(1, 0, 0)] [0])
            (\<lambda>(newbp, newbpp) t. if exclude t newbp then Inr t else addBranchPoint newbp newbpp 0 t)
            line_a"
    by (simp only: growBranches_def line_a_candidates sum.case prod.case)
  then show ?thesis by (simp add: x line_a_commit)
qed

lemma line_b_addEndPoint: "addEndPoint (- 4, 0, 0) line_b = Inr line_c"
  by (simp add: addEndPoint_def closestBranchPoint_def closest_def line_defs Let_def upt2 sqrt16)

lemma line_c_candidates:
  "for_each (set_order plain_runtime (epb line_c)) (grow_candidate plain_runtime) (line_c, [], []) =
     Inr (line_c, [(- 1, 0, 0), (2, 0, 0)], [0, 1])"
  by (simp add: plain_order grow_candidate_def shootSupressed_def direction_def getitem_def
        py_index_def line_defs Let_def upt2)

lemma line_c_commit: "addBranchPoint (- 1, 0, 0) 0 1 line_c = Inr line_c1"
  by (simp add: addBranchPoint_defs line_defs upt2 sqrt9 sqrt25)

lemma line_c1_commit: "addBranchPoint (2, 0, 0) 1 1 line_c1 = Inr line_d"
  by (simp add: addBranchPoint_defs line_defs upt2 sqrt36)

lemma line_c_grow: "growBranches plain_runtime 1 line_c = Inr line_d"
proof -
  have x: "\<And>q. \<not> exclude line_c q" "\<And>q. \<not> exclude line_c1 q" by (simp_all add: line_defs)
  have "growBranches plain_runtime 1 line_c =
          for_each (zip [(- 1, 0, 0), (2, 0, 0)] [0, 1])
            (\<lambda>(newbp, newbpp) t. if exclude t newbp then Inr t else addBranchPoint newbp newbpp 1 t)
            line_c"
    by (simp only: growBranches_def line_c_candidates sum.case prod.case)
  then show ?thesis by (simp add: x line_c_commit line_c1_commit)
qed

lemma line_reachable: "reachable plain_runtime line_d"
proof -
  have "reachable plain_runtime line_a"
    by (rule reachable.construct [OF line_init]) (simp add: line_defs)
  then have "reachable plain_runtime line_b" using line_a_grow by (rule reachable.grow)
  then have "reachable plain_runtime line_c" using line_b_addEndPoint by (rule reachable.add_endpoint)
  then show ?thesis using line_c_grow by (rule reachable.grow)
qed

lemma plain_enumerates: "enumerates_sets plain_runtime"
  by (auto simp: enumerates_sets_def plain_runtime_def)

text \<open>
  Claim C1. In every store reached from a construction without preset starting points by
  calls of \<open>growBranches\<close>, \<open>addEndPoint\<close> and \<open>iterate\<close> that complete, every entry of
  \<open>bpc\<close> is at most 2. The surroundings are taken to enumerate a set with each element
  once.
\<close>

theorem childCount_at_most_two:
  "enumerates_sets env \<Longrightarrow> reachable env s \<Longrightarrow> j < length (bpc s) \<Longrightarrow> bpc s ! j \<le> 2"
  using reachable_inv [of env s] by (simp add: store_inv_def)

theorem childCount_at_most_two_witness:
  "enumerates_sets plain_runtime \<and> reachable plain_runtime line_d \<and> bpc line_d = [2, 1, 0, 0] \<and>
   bpc line_d ! 0 \<le> 2"
  using childCount_at_most_two [OF plain_enumerates line_reachable, of 0] plain_enumerates line_reachable
  by (simp add: line_d_def)

subsection \<open>An endpoint that is re-resolved during a run\<close>

lemma sqrt_1_16: "sqrt (1 / 16) = 1 / 4"
  using real_sqrt_abs [of "1 / 4"] by (simp add: power2_eq_square)

lemma sqrt_9_16: "sqrt (9 / 16) = 3 / 4"
  using real_sqrt_abs [of "3 / 4"] by (simp add: power2_eq_square)

lemma line_c_addEndPoint: "addEndPoint (- 1 / 4, 0, 0) line_c = Inr line_e"
  by (simp add: addEndPoint_def closestBranchPoint_def closest_def line_defs line_e_def Let_def
        upt2 sqrt_1_16)

lemma line_e_candidates:
  "for_each (set_order plain_runtime (epb line_e)) (grow_candidate plain_runtime) (line_e, [], []) =
     Inr (line_e, [(- 1, 0, 0), (2, 0, 0)], [0, 1])"
  by (simp add: plain_order grow_candidate_def shootSupressed_def direction_def getitem_def
        py_index_def line_defs line_e_def Let_def upt3)

lemma line_e_commit: "addBranchPoint (- 1, 0, 0) 0 1 line_e = Inr line_f"
  by (simp add: addBranchPoint_defs line_defs line_e_def line_f_def upt3 sqrt9 sqrt25 sqrt_9_16)

lemma line_e_reachable: "reachable plain_runtime line_e"
proof -
  have "reachable plain_runtime line_a"
    by (rule reachable.construct [OF line_init]) (simp add: line_defs)
  then have "reachable plain_runtime line_b" using line_a_grow by (rule reachable.grow)
  then have "reachable plain_runtime line_c" using line_b_addEndPoint by (rule reachable.add_endpoint)
  then show ?thesis using line_c_addEndPoint by (rule reachable.add_endpoint)
qed

text \<open>
  Claim C3 as stated (an endpoint whose distance to the new point is not smaller than its
  recorded distance is unchanged) fails when the call fills the parent, and it does so in
  a run of the engine. Construct with one endpoint at \<open>(4, 0, 0)\<close>, grow once, add the
  endpoints \<open>(-4, 0, 0)\<close> and \<open>(-1/4, 0, 0)\<close>: both are associated with the root, which has
  one child. The next \<open>growBranches\<close> stages \<open>(-1, 0, 0)\<close> for the root and commits it
  first. The endpoint at \<open>(-1/4, 0, 0)\<close> is 3/4 away from the new point, more than its
  recorded 1/4, and yet the call moves it from the root to the new branch point 2, with
  the direction reversed and the distance 3/4.
\<close>

theorem addBranchPoint_endpoints_counterexample:
  "reachable plain_runtime line_e \<and>
   for_each (set_order plain_runtime (epb line_e)) (grow_candidate plain_runtime) (line_e, [], []) =
     Inr (line_e, [(- 1, 0, 0), (2, 0, 0)], [0, 1]) \<and>
   epb line_e ! 2 \<noteq> - 1 \<and>
   \<not> sqrt (dist2 (ep line_e ! 2) (- 1, 0, 0)) < epd line_e ! 2 \<and>
   endpoint line_e 2 = (0, (- 1, 0, 0), 1 / 4) \<and>
   (\<exists>s'. addBranchPoint (- 1, 0, 0) 0 1 line_e = Inr s' \<and> endpoint s' 2 = (2, (1, 0, 0), 3 / 4))"
  by (simp add: line_e_reachable line_e_candidates line_e_commit endpoint_def)
     (simp add: line_e_def line_f_def dist2_def sqrt_9_16)

subsection \<open>The two phases of growBranches\<close>

lemma new_position_cursor: "new_position (s\<lparr>rcursor := c\<rparr>) bpi = new_position s bpi"
  by (simp add: new_position_def split: prod.splits sum.splits)

lemma shootSupressed_cursor:
  "shootSupressed env a s = (b, s') \<Longrightarrow> s' = s\<lparr>rcursor := rcursor s'\<rparr>"
  by (rule shootSupressed_store)

lemma grow_candidate_staged:
  "grow_candidate env bpi (s, nb, np) =
     (case getitem (bpa s) bpi of
        Inl e \<Rightarrow> Inl e
      | Inr a \<Rightarrow>
          (case shootSupressed env (of_int a) s of
             (True, s') \<Rightarrow> Inr (s', nb, np)
           | (False, s') \<Rightarrow>
               (case new_position s bpi of
                  Inl e \<Rightarrow> Inl e
                | Inr q \<Rightarrow> Inr (s', nb @ [q], np @ [bpi]))))"
proof (cases "getitem (bpa s) bpi")
  case (Inl e)
  then show ?thesis by (simp add: grow_candidate_def)
next
  case (Inr a)
  obtain b s' where sh: "shootSupressed env (of_int a) s = (b, s')"
    by (cases "shootSupressed env (of_int a) s") auto
  from shootSupressed_store [OF sh] have s': "s' = s\<lparr>rcursor := rcursor s'\<rparr>" .
  have np: "new_position s' bpi = new_position s bpi"
    by (subst s') (rule new_position_cursor)
  show ?thesis
  proof (cases b)
    case True
    with Inr sh show ?thesis by (simp add: grow_candidate_def)
  next
    case False
    have "grow_candidate env bpi (s, nb, np) =
            (case new_position s' bpi of Inl e \<Rightarrow> Inl e | Inr q \<Rightarrow> Inr (s', nb @ [q], np @ [bpi]))"
      using Inr sh False
      by (auto simp: grow_candidate_def new_position_def Let_def split: prod.splits sum.splits)
    then show ?thesis using Inr sh False by (simp add: np)
  qed
qed

lemma shootSupressed_shift:
  "shootSupressed env a (s\<lparr>rcursor := c\<rparr>\<lparr>rcursor := cur\<rparr>) = shootSupressed env a (s\<lparr>rcursor := cur\<rparr>)"
  by simp

lemma staged_candidates_cursor:
  "staged_candidates env (s\<lparr>rcursor := c\<rparr>) is cur = staged_candidates env s is cur"
proof (induction "is" arbitrary: cur)
  case Nil
  then show ?case by simp
next
  case (Cons bpi rest)
  show ?case
    by (simp add: Cons.IH new_position_cursor
          cong: sum.case_cong prod.case_cong bool.case_cong)
qed

lemma gather_staged:
  "for_each is (grow_candidate env) (s, nb, np) =
     (case staged_candidates env s is (rcursor s) of
        Inl e \<Rightarrow> Inl e
      | Inr (cands, cur) \<Rightarrow> Inr (s\<lparr>rcursor := cur\<rparr>, nb @ map fst cands, np @ map snd cands))"
proof (induction "is" arbitrary: s nb np)
  case Nil
  then show ?case by simp
next
  case (Cons bpi rest)
  show ?case
  proof (cases "getitem (bpa s) bpi")
    case (Inl e)
    then show ?thesis by (simp add: grow_candidate_staged)
  next
    case (Inr a)
    obtain b s' where sh: "shootSupressed env (of_int a) s = (b, s')"
      by (cases "shootSupressed env (of_int a) s") auto
    from shootSupressed_store [OF sh] have s': "s' = s\<lparr>rcursor := rcursor s'\<rparr>" .
    have st: "\<And>cur. staged_candidates env s' rest cur = staged_candidates env s rest cur"
      by (subst s') (rule staged_candidates_cursor)
    have up: "\<And>cur. s'\<lparr>rcursor := cur\<rparr> = s\<lparr>rcursor := cur\<rparr>"
      by (subst s') simp
    have sh': "shootSupressed env (of_int a) (s\<lparr>rcursor := rcursor s\<rparr>) = (b, s')"
      using sh by simp
    show ?thesis
    proof (cases b)
      case True
      then show ?thesis
        using Inr sh sh' Cons.IH [of s' nb np]
        by (simp add: grow_candidate_staged st up split: sum.splits prod.splits)
    next
      case False
      show ?thesis
      proof (cases "new_position s bpi")
        case (Inl e)
        then show ?thesis using Inr sh sh' False by (simp add: grow_candidate_staged)
      next
        case q: (Inr q)
        then show ?thesis
          using Inr sh sh' False Cons.IH [of s' "nb @ [q]" "np @ [bpi]"]
          by (simp add: grow_candidate_staged st up split: sum.splits prod.splits)
      qed
    qed
  qed
qed

lemma staged_candidates_subseq:
  "staged_candidates env s is cur = Inr (cands, cur') \<Longrightarrow> subseq (map snd cands) is"
proof (induction "is" arbitrary: cur cands)
  case Nil
  then show ?case by simp
next
  case (Cons bpi rest)
  from Cons.prems obtain a where a: "getitem (bpa s) bpi = Inr a"
    by (cases "getitem (bpa s) bpi") auto
  obtain b s' where sh: "shootSupressed env (of_int a) (s\<lparr>rcursor := cur\<rparr>) = (b, s')"
    by (cases "shootSupressed env (of_int a) (s\<lparr>rcursor := cur\<rparr>)") auto
  show ?case
  proof (cases b)
    case True
    with Cons.prems a sh have "staged_candidates env s rest (rcursor s') = Inr (cands, cur')" by simp
    from Cons.IH [OF this] show ?thesis by (rule list_emb_Cons)
  next
    case False
    with Cons.prems a sh obtain q cs where
      "staged_candidates env s rest (rcursor s') = Inr (cs, cur')" "cands = (q, bpi) # cs"
      by (auto split: sum.splits)
    with Cons.IH [of "rcursor s'" cs] show ?thesis by simp
  qed
qed

lemma sweep_step_exclude: "sweep_step p bi k t = Inr t' \<Longrightarrow> exclude t' = exclude t"
  by (subst sweep_step_effect, assumption) simp

lemma reassign_step_exclude: "reassign_step pidx k t = Inr t' \<Longrightarrow> exclude t' = exclude t"
  using reassign_step_effect [of pidx k t t'] by auto

lemma addBranchPoint_exclude:
  assumes "addBranchPoint p pidx gen s = Inr s'"
  shows "exclude s' = exclude s"
proof -
  from assms obtain s3 s4 s5 where
    a: "append_point p pidx gen s = Inr s3" and
    b: "sweep_endpoints p s3 = Inr s4" and
    c: "reassign_endpoints pidx s4 = Inr s5" and
    d: "count_branch_event pidx s5 = Inr s'"
    by (auto simp: addBranchPoint_def split: sum.splits)
  from append_point_effect [OF a] have 1: "exclude s3 = exclude s" by auto
  from b have b': "for_each [0..<min (length (ep s3)) (min (length (epd s3)) (length (epb s3)))]
       (sweep_step p (int (length (bp s3)) - 1)) s3 = Inr s4" by (simp add: sweep_endpoints_def)
  have 2: "exclude s4 = exclude s3"
    by (rule for_each_invariant [OF b', where P = "\<lambda>t. exclude t = exclude s3"])
       (simp_all add: sweep_step_exclude)
  from c obtain cc where cc: "getitem (bpc s4) pidx = Inr cc" and
    c': "(if 1 < cc then for_each [0..<length (epb s4)] (reassign_step pidx) s4 else Inr s4) = Inr s5"
    by (cases "getitem (bpc s4) pidx") (simp_all add: reassign_endpoints_def)
  have 3: "exclude s5 = exclude s4"
  proof (cases "1 < cc")
    case True
    with c' have r: "for_each [0..<length (epb s4)] (reassign_step pidx) s4 = Inr s5" by simp
    show ?thesis
      by (rule for_each_invariant [OF r, where P = "\<lambda>t. exclude t = exclude s4"])
         (simp_all add: reassign_step_exclude)
  next
    case False
    with c' show ?thesis by simp
  qed
  from count_branch_event_effect [OF d] have 4: "exclude s' = exclude s5" by auto
  from 1 2 3 4 show ?thesis by simp
qed

lemma commit_filter:
  "for_each cands (\<lambda>(q, pidx) t. if exclude t q then Inr t else addBranchPoint q pidx gen t) t =
   for_each (filter (\<lambda>c. \<not> exclude t (fst c)) cands) (\<lambda>c. addBranchPoint (fst c) (snd c) gen) t"
proof (induction cands arbitrary: t)
  case Nil
  then show ?case by simp
next
  case (Cons c cands)
  obtain q pidx where c: "c = (q, pidx)" by (cases c) auto
  show ?case
  proof (cases "exclude t q")
    case True
    then show ?thesis by (simp add: c Cons.IH)
  next
    case False
    show ?thesis
    proof (cases "addBranchPoint q pidx gen t")
      case (Inl e)
      with False show ?thesis by (simp add: c)
    next
      case (Inr t1)
      from addBranchPoint_exclude [OF Inr] have "exclude t1 = exclude t" .
      with False Inr show ?thesis by (simp add: c Cons.IH)
    qed
  qed
qed

lemma line_c_staged:
  "staged_candidates plain_runtime line_c (set_order plain_runtime (epb line_c)) (rcursor line_c) =
     Inr ([((- 1, 0, 0), 0), ((2, 0, 0), 1)], 0)"
  by (simp add: plain_order new_position_def shootSupressed_def direction_def getitem_def
        py_index_def line_defs Let_def upt2)

lemma growBranches_snapshot:
  "growBranches env gen s =
     (case staged_candidates env s (set_order env (epb s)) (rcursor s) of
        Inl e \<Rightarrow> Inl e
      | Inr (cands, cur) \<Rightarrow>
          for_each (filter (\<lambda>c. \<not> exclude s (fst c)) cands)
            (\<lambda>c. addBranchPoint (fst c) (snd c) gen) (s\<lparr>rcursor := cur\<rparr>))"
proof (cases "staged_candidates env s (set_order env (epb s)) (rcursor s)")
  case (Inl e)
  then show ?thesis by (simp add: growBranches_def gather_staged)
next
  case (Inr r)
  obtain cands cur where r: "r = (cands, cur)" by (cases r) auto
  have z: "zip (map fst cands) (map snd cands) = cands" by (simp add: zip_map_fst_snd)
  show ?thesis
    using Inr by (simp add: growBranches_def gather_staged r z commit_filter)
qed

text \<open>
  Claim C2, amended. In every call of \<open>growBranches\<close> all candidates (new positions and
  parent indices) are computed from the store as it was at the start of the call: the first
  loop changes nothing but the position in the random sequence, and the call equals the
  staged computation of the candidates on that snapshot followed by the commits. The
  candidates that the exclusion predicate lets through are committed by \<open>addBranchPoint\<close>
  in the order in which the loop enumerated \<open>set(epb)\<close>, which is the order of their
  computation; nothing sorts them by parent index.
\<close>

theorem growBranches_staged:
  "growBranches env gen s =
     (case staged_candidates env s (set_order env (epb s)) (rcursor s) of
        Inl e \<Rightarrow> Inl e
      | Inr (cands, cur) \<Rightarrow>
          for_each (filter (\<lambda>c. \<not> exclude s (fst c)) cands)
            (\<lambda>c. addBranchPoint (fst c) (snd c) gen) (s\<lparr>rcursor := cur\<rparr>)) \<and>
   (\<forall>cands cur. staged_candidates env s (set_order env (epb s)) (rcursor s) = Inr (cands, cur) \<longrightarrow>
      subseq (map snd cands) (set_order env (epb s)))"
  using growBranches_snapshot [of env gen s] staged_candidates_subseq [of env s] by blast

theorem growBranches_staged_witness:
  "staged_candidates plain_runtime line_c (set_order plain_runtime (epb line_c)) (rcursor line_c) =
     Inr ([((- 1, 0, 0), 0), ((2, 0, 0), 1)], 0) \<and>
   subseq [0, 1] (set_order plain_runtime (epb line_c)) \<and>
   growBranches plain_runtime 1 line_c =
     for_each [((- 1, 0, 0), 0), ((2, 0, 0), 1)] (\<lambda>c. addBranchPoint (fst c) (snd c) 1) line_c"
proof -
  have x: "\<And>q. \<not> exclude line_c q" and c: "line_c\<lparr>rcursor := 0\<rparr> = line_c"
    by (simp_all add: line_defs)
  note t = growBranches_staged [of plain_runtime 1 line_c]
  from conjunct2 [OF t] line_c_staged
  have "subseq (map snd ([((- 1, 0, 0), 0), ((2, 0, 0), 1)] :: (vec \<times> int) list))
          (set_order plain_runtime (epb line_c))"
    by blast
  moreover from conjunct1 [OF t] have "growBranches plain_runtime 1 line_c =
     for_each [((- 1, 0, 0), 0), ((2, 0, 0), 1)] (\<lambda>c. addBranchPoint (fst c) (snd c) 1) line_c"
    by (simp only: line_c_staged sum.case prod.case) (simp add: x c)
  ultimately show ?thesis using line_c_staged by simp
qed

lemma upt9: "[0..<9] = [0, 1, 2, 3, 4, 5, 6, 7, 8]"
  by (simp add: upt_rec)

lemma sqrt49: "sqrt 49 = 7"
  using real_sqrt_abs [of 7] by simp

lemma sqrt64: "sqrt 64 = 8"
  using real_sqrt_abs [of 8] by simp

lemma sqrt81: "sqrt 81 = 9"
  using real_sqrt_abs [of 9] by simp

lemma sqrt100: "sqrt 100 = 10"
  using real_sqrt_abs [of 10] by simp

lemma sqrt121: "sqrt 121 = 11"
  using real_sqrt_abs [of 11] by simp

lemma sqrt144: "sqrt 144 = 12"
  using real_sqrt_abs [of 12] by simp

lemma sqrt37: "(sqrt 37 < 3) = False"
  using real_le_rsqrt [of 3 37] by simp

lemmas chain_defs = chain_0_def chain_1_def chain_2_def chain_3_def chain_4_def chain_5_def
  chain_6_def chain_7_def chain_8_def chain_store_def chain_mid_def chain_grown_def
  chain_config_def line_config_def initial_store_def default_config_def

lemmas chain_sqrts = sqrt9 sqrt16 sqrt25 sqrt36 sqrt49 sqrt64 sqrt81 sqrt100 sqrt121 sqrt144

lemma hash_order:
  "set_order hash_runtime xs =
     sort_key (\<lambda>b. b mod 8) (remdups (filter (\<lambda>b. b \<noteq> - 1 \<and> b \<noteq> - 2) xs))"
  by (simp add: hash_runtime_def plain_runtime_def)

lemma growBranches_single:
  assumes "set_order env (epb s) = [b]"
    and "staged_candidates env s [b] (rcursor s) = Inr ([(p, b)], rcursor s)"
    and "\<not> exclude s p" and "addBranchPoint p b gen s = Inr s'"
  shows "growBranches env gen s = Inr s'"
proof -
  have c: "s\<lparr>rcursor := rcursor s\<rparr> = s" by simp
  have "growBranches env gen s =
          for_each (filter (\<lambda>c. \<not> exclude s (fst c)) [(p, b)])
            (\<lambda>c. addBranchPoint (fst c) (snd c) gen) (s\<lparr>rcursor := rcursor s\<rparr>)"
    by (simp only: growBranches_snapshot assms(1,2) sum.case prod.case)
  then show ?thesis using assms(3,4) by (simp add: c)
qed

lemma chain_init: "SCA_init hash_runtime chain_config = Inr (initial_store chain_config)"
  by (simp add: SCA_init_def chain_config_def line_config_def default_config_def)

lemma chain_first: "addEndPoint (12, 0, 0) (initial_store chain_config) = Inr chain_0"
  by (simp add: addEndPoint_def closestBranchPoint_def closest_def chain_defs Let_def sqrt144)

lemma chain_0_grow: "growBranches hash_runtime 0 chain_0 = Inr chain_1"
proof (rule growBranches_single [where b = 0 and p = "(1, 0, 0)"])
  show "set_order hash_runtime (epb chain_0) = [0]" by (simp add: hash_order chain_defs)
  show "staged_candidates hash_runtime chain_0 [0] (rcursor chain_0) =
          Inr ([((1, 0, 0), 0)], rcursor chain_0)"
    by (simp add: new_position_def shootSupressed_def direction_def getitem_def py_index_def
          chain_defs Let_def)
  show "\<not> exclude chain_0 (1, 0, 0)" by (simp add: chain_defs)
  show "addBranchPoint (1, 0, 0) 0 0 chain_0 = Inr chain_1"
    by (simp add: addBranchPoint_defs chain_defs chain_sqrts)
qed

lemma chain_1_grow: "growBranches hash_runtime 1 chain_1 = Inr chain_2"
proof (rule growBranches_single [where b = 1 and p = "(2, 0, 0)"])
  show "set_order hash_runtime (epb chain_1) = [1]" by (simp add: hash_order chain_defs)
  show "staged_candidates hash_runtime chain_1 [1] (rcursor chain_1) =
          Inr ([((2, 0, 0), 1)], rcursor chain_1)"
    by (simp add: new_position_def shootSupressed_def direction_def getitem_def py_index_def
          chain_defs Let_def)
  show "\<not> exclude chain_1 (2, 0, 0)" by (simp add: chain_defs)
  show "addBranchPoint (2, 0, 0) 1 1 chain_1 = Inr chain_2"
    by (simp add: addBranchPoint_defs chain_defs chain_sqrts)
qed

lemma chain_2_grow: "growBranches hash_runtime 2 chain_2 = Inr chain_3"
proof (rule growBranches_single [where b = 2 and p = "(3, 0, 0)"])
  show "set_order hash_runtime (epb chain_2) = [2]" by (simp add: hash_order chain_defs)
  show "staged_candidates hash_runtime chain_2 [2] (rcursor chain_2) =
          Inr ([((3, 0, 0), 2)], rcursor chain_2)"
    by (simp add: new_position_def shootSupressed_def direction_def getitem_def py_index_def
          chain_defs Let_def)
  show "\<not> exclude chain_2 (3, 0, 0)" by (simp add: chain_defs)
  show "addBranchPoint (3, 0, 0) 2 2 chain_2 = Inr chain_3"
    by (simp add: addBranchPoint_defs chain_defs chain_sqrts)
qed

lemma chain_3_grow: "growBranches hash_runtime 3 chain_3 = Inr chain_4"
proof (rule growBranches_single [where b = 3 and p = "(4, 0, 0)"])
  show "set_order hash_runtime (epb chain_3) = [3]" by (simp add: hash_order chain_defs)
  show "staged_candidates hash_runtime chain_3 [3] (rcursor chain_3) =
          Inr ([((4, 0, 0), 3)], rcursor chain_3)"
    by (simp add: new_position_def shootSupressed_def direction_def getitem_def py_index_def
          chain_defs Let_def)
  show "\<not> exclude chain_3 (4, 0, 0)" by (simp add: chain_defs)
  show "addBranchPoint (4, 0, 0) 3 3 chain_3 = Inr chain_4"
    by (simp add: addBranchPoint_defs chain_defs chain_sqrts)
qed

lemma chain_4_grow: "growBranches hash_runtime 4 chain_4 = Inr chain_5"
proof (rule growBranches_single [where b = 4 and p = "(5, 0, 0)"])
  show "set_order hash_runtime (epb chain_4) = [4]" by (simp add: hash_order chain_defs)
  show "staged_candidates hash_runtime chain_4 [4] (rcursor chain_4) =
          Inr ([((5, 0, 0), 4)], rcursor chain_4)"
    by (simp add: new_position_def shootSupressed_def direction_def getitem_def py_index_def
          chain_defs Let_def)
  show "\<not> exclude chain_4 (5, 0, 0)" by (simp add: chain_defs)
  show "addBranchPoint (5, 0, 0) 4 4 chain_4 = Inr chain_5"
    by (simp add: addBranchPoint_defs chain_defs chain_sqrts)
qed

lemma chain_5_grow: "growBranches hash_runtime 5 chain_5 = Inr chain_6"
proof (rule growBranches_single [where b = 5 and p = "(6, 0, 0)"])
  show "set_order hash_runtime (epb chain_5) = [5]" by (simp add: hash_order chain_defs)
  show "staged_candidates hash_runtime chain_5 [5] (rcursor chain_5) =
          Inr ([((6, 0, 0), 5)], rcursor chain_5)"
    by (simp add: new_position_def shootSupressed_def direction_def getitem_def py_index_def
          chain_defs Let_def)
  show "\<not> exclude chain_5 (6, 0, 0)" by (simp add: chain_defs)
  show "addBranchPoint (6, 0, 0) 5 5 chain_5 = Inr chain_6"
    by (simp add: addBranchPoint_defs chain_defs chain_sqrts)
qed

lemma chain_6_grow: "growBranches hash_runtime 6 chain_6 = Inr chain_7"
proof (rule growBranches_single [where b = 6 and p = "(7, 0, 0)"])
  show "set_order hash_runtime (epb chain_6) = [6]" by (simp add: hash_order chain_defs)
  show "staged_candidates hash_runtime chain_6 [6] (rcursor chain_6) =
          Inr ([((7, 0, 0), 6)], rcursor chain_6)"
    by (simp add: new_position_def shootSupressed_def direction_def getitem_def py_index_def
          chain_defs Let_def)
  show "\<not> exclude chain_6 (7, 0, 0)" by (simp add: chain_defs)
  show "addBranchPoint (7, 0, 0) 6 6 chain_6 = Inr chain_7"
    by (simp add: addBranchPoint_defs chain_defs chain_sqrts)
qed

lemma chain_7_grow: "growBranches hash_runtime 7 chain_7 = Inr chain_8"
proof (rule growBranches_single [where b = 7 and p = "(8, 0, 0)"])
  show "set_order hash_runtime (epb chain_7) = [7]" by (simp add: hash_order chain_defs)
  show "staged_candidates hash_runtime chain_7 [7] (rcursor chain_7) =
          Inr ([((8, 0, 0), 7)], rcursor chain_7)"
    by (simp add: new_position_def shootSupressed_def direction_def getitem_def py_index_def
          chain_defs Let_def)
  show "\<not> exclude chain_7 (8, 0, 0)" by (simp add: chain_defs)
  show "addBranchPoint (8, 0, 0) 7 7 chain_7 = Inr chain_8"
    by (simp add: addBranchPoint_defs chain_defs chain_sqrts)
qed

lemma chain_second: "addEndPoint (6, 4, 0) chain_8 = Inr chain_store"
  by (simp add: addEndPoint_def closestBranchPoint_def closest_def chain_defs Let_def upt9 sqrt16)

lemma chain_reachable: "reachable hash_runtime chain_store"
proof -
  have "reachable hash_runtime (initial_store chain_config)"
    by (rule reachable.construct [OF chain_init]) (simp add: chain_defs)
  then have "reachable hash_runtime chain_0" using chain_first by (rule reachable.add_endpoint)
  then have "reachable hash_runtime chain_1" using chain_0_grow by (rule reachable.grow)
  then have "reachable hash_runtime chain_2" using chain_1_grow by (rule reachable.grow)
  then have "reachable hash_runtime chain_3" using chain_2_grow by (rule reachable.grow)
  then have "reachable hash_runtime chain_4" using chain_3_grow by (rule reachable.grow)
  then have "reachable hash_runtime chain_5" using chain_4_grow by (rule reachable.grow)
  then have "reachable hash_runtime chain_6" using chain_5_grow by (rule reachable.grow)
  then have "reachable hash_runtime chain_7" using chain_6_grow by (rule reachable.grow)
  then have "reachable hash_runtime chain_8" using chain_7_grow by (rule reachable.grow)
  then show ?thesis using chain_second by (rule reachable.add_endpoint)
qed

lemma hash_order_chain: "set_order hash_runtime (epb chain_store) = [8, 6]"
  by (simp add: hash_order chain_defs)

lemma chain_candidates:
  "staged_candidates hash_runtime chain_store [8, 6] (rcursor chain_store) =
     Inr ([((9, 0, 0), 8), ((6, 1, 0), 6)], 0)"
  by (simp add: new_position_def shootSupressed_def direction_def getitem_def
        py_index_def chain_defs Let_def upt2)

lemma chain_commit: "addBranchPoint (9, 0, 0) 8 8 chain_store = Inr chain_mid"
  by (simp add: addBranchPoint_defs chain_defs upt2 chain_sqrts)

lemma chain_commit2: "addBranchPoint (6, 1, 0) 6 8 chain_mid = Inr chain_grown"
  by (simp add: addBranchPoint_defs chain_defs upt2 chain_sqrts sqrt37)

lemma chain_grow: "growBranches hash_runtime 8 chain_store = Inr chain_grown"
proof -
  have x: "\<And>q. \<not> exclude chain_store q" by (simp add: chain_defs)
  have c: "chain_store\<lparr>rcursor := 0\<rparr> = chain_store" by (simp add: chain_defs)
  have "growBranches hash_runtime 8 chain_store =
          for_each (filter (\<lambda>c. \<not> exclude chain_store (fst c)) [((9, 0, 0), 8), ((6, 1, 0), 6)])
            (\<lambda>c. addBranchPoint (fst c) (snd c) 8) (chain_store\<lparr>rcursor := 0\<rparr>)"
    by (simp only: growBranches_snapshot hash_order_chain chain_candidates
          sum.case prod.case)
  then show ?thesis by (simp add: x c chain_commit chain_commit2)
qed

text \<open>
  Claim C2 as stated (commits in ascending parent-index order) fails where the set is not
  enumerated in ascending order, and it does so in a run of the engine. CPython keeps a
  set of small non-negative ints in a hash table, an int in the slot of its value modulo
  the table size (8 for up to four elements), and enumerates the slots in order:
  \<open>set([8, 6])\<close> is enumerated 8, 6. After eight generations towards an endpoint at
  \<open>(12, 0, 0)\<close> and a second endpoint added at \<open>(6, 4, 0)\<close>, the endpoints are associated
  with the branch points 8 and 6, and the ninth generation commits the child of 8 before
  the child of 6.
\<close>

theorem growBranches_order_counterexample:
  "reachable hash_runtime chain_store \<and> set (epb chain_store) = {6, 8} \<and>
   (\<exists>s'. growBranches hash_runtime 8 chain_store = Inr s' \<and>
         bp s' = bp chain_store @ [(9, 0, 0), (6, 1, 0)] \<and>
         bpp s' = bpp chain_store @ [Some 8, Some 6])"
  by (simp add: chain_reachable chain_grow) (auto simp: chain_defs)

subsection \<open>Two runs and the counter of Branchpoint\<close>

lemma on_result_simps [simp]: "on_result h (Inl e) = Inl e" "on_result h (Inr x) = Inr (h x)"
  by (simp_all add: on_result_def)

lemma py_index_less: "py_index n q = Some k \<Longrightarrow> k < n"
  by (auto simp: py_index_def split: if_splits)

lemma for_each_on_result:
  assumes "\<And>i t. i \<in> set is \<Longrightarrow> I t \<Longrightarrow> f i (h t) = on_result h (f i t)"
    and "\<And>i t t'. i \<in> set is \<Longrightarrow> I t \<Longrightarrow> f i t = Inr t' \<Longrightarrow> I t'"
    and "I t"
  shows "for_each is f (h t) = on_result h (for_each is f t)"
  using assms
proof (induction "is" arbitrary: t)
  case Nil
  then show ?case by simp
next
  case (Cons i "is")
  have st: "f i (h t) = on_result h (f i t)" using Cons.prems(1) [of i t] Cons.prems(3) by simp
  show ?case
  proof (cases "f i t")
    case (Inl e)
    with st show ?thesis by simp
  next
    case (Inr t1)
    have i1: "I t1" using Cons.prems(2) [of i t t1] Cons.prems(3) Inr by simp
    have "for_each is f (h t1) = on_result h (for_each is f t1)"
    proof (rule Cons.IH)
      fix j u assume "j \<in> set is" "I u"
      then show "f j (h u) = on_result h (f j u)" using Cons.prems(1) [of j u] by simp
    next
      fix j u u' assume "j \<in> set is" "I u" "f j u = Inr u'"
      then show "I u'" using Cons.prems(2) [of j u u'] by simp
    next
      show "I t1" by (rule i1)
    qed
    with st Inr show ?thesis by simp
  qed
qed

lemma renumbered_new: "renumbered k (new_Branchpoint p par gen cnt) = new_Branchpoint p par gen (cnt + k)"
  by (simp add: renumbered_def new_Branchpoint_def)

lemma renumbered_fields [simp]:
  "b_apex (renumbered k b) = b_apex b" "b_parent (renumbered k b) = b_parent b"
  "b_connections (renumbered k b) = b_connections b"
  "renumbered k (b\<lparr>b_apex := x\<rparr>) = (renumbered k b)\<lparr>b_apex := x\<rparr>"
  "renumbered k (b\<lparr>b_shoot := x\<rparr>) = (renumbered k b)\<lparr>b_shoot := x\<rparr>"
  "renumbered k (b\<lparr>b_connections := y\<rparr>) = (renumbered k b)\<lparr>b_connections := y\<rparr>"
  by (simp_all add: renumbered_def)

lemma register_child_shift:
  "register_child q (map (renumbered k) bs) = on_result (map (renumbered k)) (register_child q bs)"
proof (cases "py_index (length bs) q")
  case None
  then show ?thesis by (simp add: register_child_def)
next
  case (Some k')
  from py_index_less [OF Some] have "k' < length bs" .
  then show ?thesis using Some by (simp add: register_child_def map_update)
qed

lemma register_child_length: "register_child q bs = Inr bs' \<Longrightarrow> length bs' = length bs"
  by (auto simp: register_child_def split: option.splits if_splits)

lemma materialize_step_shift:
  "materialize_step s bi (fst st + k, map (renumbered k) (snd st)) =
     on_result (\<lambda>r. (fst r + k, map (renumbered k) (snd r))) (materialize_step s bi st)"
proof -
  have m: "\<And>par gen. map (renumbered k) (snd st) @ [new_Branchpoint (bp s ! bi) par gen (fst st + k)] =
        map (renumbered k) (snd st @ [new_Branchpoint (bp s ! bi) par gen (fst st)])"
    by (simp add: renumbered_new)
  show ?thesis
    by (simp add: materialize_step_def m register_child_shift del: map_append
          split: sum.splits option.splits)
qed

lemma count_up_shift:
  "count_up fuel par (map (renumbered k) bs) = on_result (map (renumbered k)) (count_up fuel par bs)"
proof (induction fuel par bs rule: count_up.induct)
  case (1 fuel bs)
  then show ?case by simp
next
  case (2 q bs)
  then show ?case by simp
next
  case (3 fuel q bs)
  show ?case
  proof (cases "py_index (length bs) q")
    case None
    then show ?thesis by simp
  next
    case (Some k')
    from py_index_less [OF Some] have lt: "k' < length bs" .
    from 3 [OF Some] lt Some show ?thesis by (simp add: map_update)
  qed
qed

lemma count_up_length: "count_up fuel par bs = Inr bs' \<Longrightarrow> length bs' = length bs"
proof (induction fuel par bs rule: count_up.induct)
  case (1 fuel bs)
  then show ?case by simp
next
  case (2 q bs)
  then show ?case by simp
next
  case (3 fuel q bs)
  then show ?case by (auto split: option.splits)
qed

lemma materialize_step_counts:
  "materialize_step s bi st = Inr st' \<Longrightarrow> fst st' = fst st + 1 \<and> length (snd st') = Suc (length (snd st))"
  by (auto simp: materialize_step_def split: sum.splits option.splits dest: register_child_length)

lemma materialize_counts:
  assumes "materialize cnt s = Inr (n, s')"
  shows "n = cnt + int (length (branchpoints s')) \<and> length (branchpoints s') = length (bp s)"
proof -
  from assms obtain cnt' bs bs' where
    l1: "for_each [0..<length (bp s)] (materialize_step s) (cnt, []) = Inr (cnt', bs)" and
    l2: "for_each [0..<length bs] (\<lambda>k bs'. count_up (Suc (length bs')) (b_parent (bs' ! k)) bs') bs = Inr bs'" and
    r: "n = cnt'" "s' = s\<lparr>branchpoints := bs', endpoints := ep s\<rparr>"
    by (auto simp: materialize_def split: sum.splits prod.splits)
  let ?P = "\<lambda>i t. fst t = cnt + int i \<and> length (snd t) = i"
  have "?P (length (bp s)) (cnt', bs)"
  proof (rule for_each_upt_invariant [OF l1, where P = ?P])
    show "?P 0 (cnt, [])" by simp
  next
    fix i t t' assume "i < length (bp s)" "?P i t" "materialize_step s i t = Inr t'"
    then show "?P (Suc i) t'" using materialize_step_counts [of s i t t'] by simp
  qed
  then have c: "cnt' = cnt + int (length (bp s))" "length bs = length (bp s)" by simp_all
  have "length bs' = length bs"
  proof (rule for_each_invariant [OF l2, where P = "\<lambda>u. length u = length bs"])
    show "length bs = length bs" by simp
  next
    fix i and t t' :: "Branchpoint list"
    assume "length t = length bs" "count_up (Suc (length t)) (b_parent (t ! i)) t = Inr t'"
    then show "length t' = length bs" using count_up_length by fastforce
  qed
  with c r show ?thesis by simp
qed

lemma materialize_shift:
  "materialize (cnt + k) s = on_result (shifted k) (materialize cnt s)"
proof -
  let ?f = "renumbered k"
  let ?h = "\<lambda>r. (fst r + k, map ?f (snd r))"
  let ?F = "\<lambda>j (u :: Branchpoint list). count_up (Suc (length u)) (b_parent (u ! j)) u"
  have "for_each [0..<length (bp s)] (materialize_step s) (?h (cnt, [])) =
          on_result ?h (for_each [0..<length (bp s)] (materialize_step s) (cnt, []))"
    by (rule for_each_on_result [where I = "\<lambda>t. True"]) (simp_all add: materialize_step_shift)
  then have l1: "for_each [0..<length (bp s)] (materialize_step s) (cnt + k, []) =
          on_result ?h (for_each [0..<length (bp s)] (materialize_step s) (cnt, []))" by simp
  have l2: "for_each [0..<length bs] ?F (map ?f bs) = on_result (map ?f) (for_each [0..<length bs] ?F bs)"
    for bs
  proof (rule for_each_on_result [where I = "\<lambda>u. length u = length bs"])
    fix j and u :: "Branchpoint list" assume "j \<in> set [0..<length bs]" "length u = length bs"
    then have "j < length u" by simp
    then show "?F j (map ?f u) = on_result (map ?f) (?F j u)" by (simp add: count_up_shift)
  next
    fix j and u u' :: "Branchpoint list" assume "length u = length bs" "?F j u = Inr u'"
    then show "length u' = length bs" using count_up_length by fastforce
  next
    show "length bs = length bs" by simp
  qed
  show ?thesis
  proof (cases "for_each [0..<length (bp s)] (materialize_step s) (cnt, [])")
    case (Inl e)
    with l1 show ?thesis by (simp add: materialize_def)
  next
    case (Inr r)
    obtain cnt' bs where r: "r = (cnt', bs)" by (cases r) auto
    show ?thesis
    proof (cases "for_each [0..<length bs] ?F bs")
      case (Inl e)
      with Inr r l1 l2 [of bs] show ?thesis by (simp add: materialize_def)
    next
      case bs': (Inr bs')
      with Inr r l1 l2 [of bs] show ?thesis by (simp add: materialize_def shifted_def)
    qed
  qed
qed

lemma iterate_shift:
  "iterate env r m (cnt + k, s) = map_option (on_result (shifted k)) (iterate env r m (cnt, s))"
  by (simp add: iterate_def Let_def materialize_shift split: option.splits sum.splits)

lemma iterate_counts:
  "iterate env r m (cnt, s) = Some (Inr (n, s')) \<Longrightarrow> n = cnt + int (length (branchpoints s'))"
  by (auto simp: iterate_def Let_def split: option.splits sum.splits dest: materialize_counts)

lemma complete_run_shift:
  "complete_run env c r m (cnt + k) = map_option (on_result (shifted k)) (complete_run env c r m cnt)"
  by (cases "SCA_init env c") (simp_all add: complete_run_def iterate_shift)

lemma complete_run_counts:
  "complete_run env c r m cnt = Some (Inr (n, s)) \<Longrightarrow> n = cnt + int (length (branchpoints s))"
  by (cases "SCA_init env c") (auto simp: complete_run_def dest: iterate_counts)

lemma line_b_materialize: "materialize 0 line_b = Inr (2, line_out)"
  by (simp add: materialize_def materialize_step_def register_child_def
        new_Branchpoint_def getitem_def py_index_def upt2 line_defs line_out_def line_tree_def)

lemma line_a_iterate: "iterate plain_runtime 0 0 (0, line_a) = Some (Inr (2, line_out))"
proof -
  have m: "maxiterations line_a = 1" by (simp add: line_defs)
  have a: "apicaltiming line_b = 0" by (simp add: line_defs)
  show ?thesis
    by (simp add: iterate_def m line_a_grow reduce_apical_control_def a line_b_materialize)
qed

lemma line_run: "complete_run plain_runtime line_config 0 0 0 = Some (Inr (2, line_out))"
  by (simp add: complete_run_def line_init line_a_iterate)

text \<open>
  Claim C9, amended. A complete run (construction, then \<open>iterate\<close>) is determined by the
  seed, the configuration, the surroundings and the value of \<open>Branchpoint.count\<close> at its
  start. A run that starts with the counter \<open>k\<close> higher fails, or does not end, exactly
  when the other does, and otherwise gives the same store, the same endpoint positions and
  the same branch-point records but for the field \<open>index\<close>, which is \<open>k\<close> higher in
  every record, as is the final counter. The final counter is the starting one plus the
  number of records.
\<close>

theorem complete_run_counter:
  "complete_run env c r m (cnt + k) = map_option (on_result (shifted k)) (complete_run env c r m cnt) \<and>
   (\<forall>n s. complete_run env c r m cnt = Some (Inr (n, s)) \<longrightarrow> n = cnt + int (length (branchpoints s)))"
  using complete_run_shift complete_run_counts by blast

theorem complete_run_counter_witness:
  "complete_run plain_runtime line_config 0 0 0 = Some (Inr (2, line_out)) \<and>
   complete_run plain_runtime line_config 0 0 2 = Some (Inr (shifted 2 (2, line_out))) \<and>
   (2::int) = 0 + int (length (branchpoints line_out))"
proof -
  note t = complete_run_counter [of plain_runtime line_config 0 0 0 2]
  from conjunct1 [OF t] have "complete_run plain_runtime line_config 0 0 2 = Some (Inr (shifted 2 (2, line_out)))"
    by (simp add: line_run)
  moreover from conjunct2 [OF t] line_run have "(2::int) = 0 + int (length (branchpoints line_out))"
    by blast
  ultimately show ?thesis using line_run by simp
qed

text \<open>
  The claim as stated (identical records, \<open>index\<close> included, in two complete runs) fails
  for two runs in one process: the second run starts from the counter the first one left,
  so its records are numbered 3 and 4 where those of the first are 1 and 2.
\<close>

theorem complete_run_index_counterexample:
  "\<exists>n1 s1 n2 s2.
     complete_run plain_runtime line_config 0 0 0 = Some (Inr (n1, s1)) \<and>
     complete_run plain_runtime line_config 0 0 n1 = Some (Inr (n2, s2)) \<and>
     map b_index (branchpoints s1) = [1, 2] \<and> map b_index (branchpoints s2) = [3, 4] \<and>
     branchpoints s1 \<noteq> branchpoints s2"
proof -
  let ?s2 = "line_out\<lparr>branchpoints := map (renumbered 2) line_tree\<rparr>"
  have 2: "complete_run plain_runtime line_config 0 0 2 = Some (Inr (4, ?s2))"
    using complete_run_shift [of plain_runtime line_config 0 0 0 2]
    by (simp add: line_run shifted_def line_out_def)
  have "map b_index (branchpoints line_out) = [1, 2]"
    by (simp add: line_out_def line_tree_def)
  moreover have "map b_index (branchpoints ?s2) = [3, 4]"
    by (simp add: renumbered_def line_tree_def)
  moreover have "branchpoints line_out \<noteq> branchpoints ?s2"
    by (simp add: renumbered_def line_out_def line_tree_def)
  ultimately have f:
    "complete_run plain_runtime line_config 0 0 0 = Some (Inr (2, line_out)) \<and>
     complete_run plain_runtime line_config 0 0 2 = Some (Inr (4, ?s2)) \<and>
     map b_index (branchpoints line_out) = [1, 2] \<and> map b_index (branchpoints ?s2) = [3, 4] \<and>
     branchpoints line_out \<noteq> branchpoints ?s2"
    using line_run 2 by simp
  show ?thesis by (intro exI) (rule f)
qed

end
